theory Spec2Isabelle
  imports Complex_Main "HOL-Library.Sublist"
begin

section \<open>JavaScript string primitives used by the subtitle functions\<close>

text \<open>
  A JavaScript string is a sequence of UTF-16 code units. The model uses \<^typ>\<open>string\<close>,
  reading a \<^typ>\<open>char\<close> as a code unit below 256. Numbers are modelled as exact reals:
  every operation of the source (\<open>+\<close>, \<open>*\<close>, \<open>/\<close>, \<open>%\<close>, \<open>Math.floor\<close>, comparisons) is
  taken at its mathematical value, without the rounding of binary floating point.
\<close>

text \<open>The class \<open>\d\<close> of a regular expression: the ten ASCII digits.\<close>

definition is_digit :: "char \<Rightarrow> bool" where
  "is_digit c \<longleftrightarrow> c \<in> set ''0123456789''"

text \<open>
  White space and line terminators removed by \<open>String.prototype.trim\<close>, among the code
  units below 256: TAB, LF, VT, FF, CR, SPACE and NO-BREAK SPACE.
\<close>

definition is_space :: "char \<Rightarrow> bool" where
  "is_space c \<longleftrightarrow>
     c \<in> set [CHR 0x09, CHR 0x0A, CHR 0x0B, CHR 0x0C, CHR 0x0D, CHR 0x20, CHR 0xA0]"

definition js_trim :: "string \<Rightarrow> string" where
  "js_trim s = rev (dropWhile is_space (rev (dropWhile is_space s)))"

text \<open>\<open>s.includes(sub)\<close>: some position of \<open>s\<close> starts with \<open>sub\<close>.\<close>

fun js_includes :: "string \<Rightarrow> string \<Rightarrow> bool" where
  "js_includes [] sub = (sub = [])"
| "js_includes (c # cs) sub = (prefix sub (c # cs) \<or> js_includes cs sub)"

text \<open>
  \<open>s.split(sep)\<close> for a string separator. The scan goes left to right; at an occurrence of
  the separator the piece read so far is closed and the scan resumes behind the
  occurrence; the piece open at the end of the string is always pushed, so the result of
  splitting on a non-empty separator has at least one element. With the empty separator
  the result is the list of the code units.
\<close>

function split_scan :: "string \<Rightarrow> string \<Rightarrow> string \<Rightarrow> string list" where
  "split_scan sep piece [] = [piece]"
| "split_scan sep piece (c # cs) =
     (if sep \<noteq> [] \<and> prefix sep (c # cs)
      then piece # split_scan sep [] (drop (length sep) (c # cs))
      else split_scan sep (piece @ [c]) cs)"
  by pat_completeness auto
termination
  by (relation "measure (\<lambda>(sep, piece, s). length s)") (auto simp: neq_Nil_conv)

definition js_split :: "string \<Rightarrow> string \<Rightarrow> string list" where
  "js_split s sep = (if sep = [] then map (\<lambda>c. [c]) s else split_scan sep [] s)"

text \<open>\<open>parts.join(sep)\<close>.\<close>

fun js_join :: "string list \<Rightarrow> string \<Rightarrow> string" where
  "js_join [] sep = []"
| "js_join [p] sep = p"
| "js_join (p # q # ps) sep = p @ sep @ js_join (q # ps) sep"

text \<open>\<open>line.match(/^\d+$/)\<close>: the whole string is a non-empty run of digits.\<close>

definition all_digits :: "string \<Rightarrow> bool" where
  "all_digits s \<longleftrightarrow> s \<noteq> [] \<and> list_all is_digit s"

section \<open>The script aligner: \<open>correctSubtitles\<close>\<close>

text \<open>
  The function reads the transcript and the reference script, and writes the string
  \<open>correctedSrt\<close>. The model is the pure function from the two texts read to the text
  written. The loop state is the pair of \<open>correctedSrt\<close> and \<open>scriptIndex\<close>.
\<close>

fun correct_loop :: "string list \<Rightarrow> string list \<Rightarrow> string \<times> nat \<Rightarrow> string \<times> nat" where
  "correct_loop scriptSentences [] (correctedSrt, scriptIndex) = (correctedSrt, scriptIndex)"
| "correct_loop scriptSentences (line # srtLines) (correctedSrt, scriptIndex) =
     (if js_includes line ''-->''
      then correct_loop scriptSentences srtLines
             (correctedSrt @ line @ ''\<newline>'', scriptIndex)
      else if js_trim line \<noteq> [] \<and> \<not> all_digits line
      then (if scriptIndex < length scriptSentences
            then correct_loop scriptSentences srtLines
                   (correctedSrt @ js_trim (scriptSentences ! scriptIndex) @ ''\<newline>'',
                    Suc scriptIndex)
            else correct_loop scriptSentences srtLines (correctedSrt, scriptIndex))
      else correct_loop scriptSentences srtLines
             (correctedSrt @ line @ ''\<newline>'', scriptIndex))"

definition correctSubtitles :: "string \<Rightarrow> string \<Rightarrow> string" where
  "correctSubtitles srtData scriptData =
     fst (correct_loop (js_split scriptData ''. '') (js_split srtData ''\<newline>'') ([], 0))"

text \<open>
  The two line classes the aligner tells apart from the rest: a timing line contains the
  arrow; a content line is none, is not blank after trimming and is not a pure integer.
\<close>

definition timing_line :: "string \<Rightarrow> bool" where
  "timing_line l \<longleftrightarrow> js_includes l ''-->''"

definition content_line :: "string \<Rightarrow> bool" where
  "content_line l \<longleftrightarrow> \<not> js_includes l ''-->'' \<and> js_trim l \<noteq> [] \<and> \<not> all_digits l"

text \<open>The number of content lines in front of position \<open>i\<close>.\<close>

definition content_rank :: "string list \<Rightarrow> nat \<Rightarrow> nat" where
  "content_rank ls i = length (filter content_line (take i ls))"

section \<open>The caption compiler: \<open>convertSrtToAss\<close>\<close>

subsection \<open>Parsing a transcript time: \<open>timeStringToSeconds\<close>\<close>

text \<open>
  The pattern is \<open>/(\d+):(\d+):(\d+),(\d+)/\<close>, not anchored. \<open>digits_then c s\<close> reads the
  greedy \<open>\d+\<close> at the head of \<open>s\<close> and the literal \<open>c\<close> behind it. Giving back digits of a
  greedy run never helps here: the character behind a shorter run is a digit, not the
  literal. \<open>match_here\<close> is the pattern tried at one position, \<open>regex_match\<close> tries the
  positions from left to right and returns the four groups of the first match.
\<close>

definition digits_then :: "char \<Rightarrow> string \<Rightarrow> (string \<times> string) option" where
  "digits_then c s =
     (case dropWhile is_digit s of
        [] \<Rightarrow> None
      | x # rest \<Rightarrow> if takeWhile is_digit s \<noteq> [] \<and> x = c
                    then Some (takeWhile is_digit s, rest) else None)"

definition match_here :: "string \<Rightarrow> (string \<times> string \<times> string \<times> string) option" where
  "match_here s =
     (case digits_then (CHR '':'') s of
        None \<Rightarrow> None
      | Some (g1, r1) \<Rightarrow>
          (case digits_then (CHR '':'') r1 of
             None \<Rightarrow> None
           | Some (g2, r2) \<Rightarrow>
               (case digits_then (CHR '','') r2 of
                  None \<Rightarrow> None
                | Some (g3, r3) \<Rightarrow>
                    if takeWhile is_digit r3 = [] then None
                    else Some (g1, g2, g3, takeWhile is_digit r3))))"

fun regex_match :: "string \<Rightarrow> (string \<times> string \<times> string \<times> string) option" where
  "regex_match [] = match_here []"
| "regex_match (c # cs) =
     (case match_here (c # cs) of Some g \<Rightarrow> Some g | None \<Rightarrow> regex_match cs)"

text \<open>\<open>parseInt(d, 10)\<close> on a run of digits.\<close>

definition digit_value :: "char \<Rightarrow> nat" where
  "digit_value c = of_char c - 48"

definition parseInt :: "string \<Rightarrow> nat" where
  "parseInt d = foldl (\<lambda>a c. 10 * a + digit_value c) 0 d"

definition timeStringToSeconds :: "string \<Rightarrow> real" where
  "timeStringToSeconds timeString =
     (case regex_match timeString of
        None \<Rightarrow> 0
      | Some (g1, g2, g3, g4) \<Rightarrow>
          (let hours = parseInt g1; minutes = parseInt g2;
               seconds = parseInt g3; milliseconds = parseInt g4
           in real hours * 3600 + real minutes * 60 + real seconds + real milliseconds / 1000))"

subsection \<open>Formatting an output time: \<open>secondsToAssTime\<close>\<close>

text \<open>
  Decimal digits of an integer, as \<open>Number.prototype.toString\<close> prints them (below
  \<open>10^21\<close>; larger magnitudes, printed with an exponent, are outside the model).
  \<open>digit_char\<close> is only applied to numbers below ten.
\<close>

definition digit_char :: "nat \<Rightarrow> char" where
  "digit_char d = ''0123456789'' ! d"

function nat_to_string :: "nat \<Rightarrow> string" where
  "nat_to_string n =
     (if n < 10 then [digit_char n] else nat_to_string (n div 10) @ [digit_char (n mod 10)])"
  by pat_completeness auto
termination
  by (relation "measure (\<lambda>n. n)") auto

definition int_to_string :: "int \<Rightarrow> string" where
  "int_to_string i =
     (if i < 0 then ''-'' @ nat_to_string (nat (- i)) else nat_to_string (nat i))"

text \<open>\<open>x % y\<close> on numbers: the remainder has the sign of the dividend.\<close>

definition js_rem :: "real \<Rightarrow> real \<Rightarrow> real" where
  "js_rem x y =
     (if 0 \<le> x / y then x - y * of_int \<lfloor>x / y\<rfloor> else x - y * of_int \<lceil>x / y\<rceil>)"

text \<open>
  \<open>x.toFixed(2)\<close>: the sign, then the integer \<open>n\<close> nearest to \<open>100 * |x|\<close> (the larger one
  on a tie), its digits padded with zeros to three at least, and the point in front of
  the last two.
\<close>

definition toFixed2 :: "real \<Rightarrow> string" where
  "toFixed2 x =
     (let n = nat \<lfloor>\<bar>x\<bar> * 100 + 1 / 2\<rfloor>;
          m = nat_to_string n;
          m = (if length m \<le> 2 then replicate (3 - length m) (CHR ''0'') @ m else m);
          k = length m
      in (if x < 0 then ''-'' else []) @ take (k - 2) m @ ''.'' @ drop (k - 2) m)"

definition padStart :: "string \<Rightarrow> nat \<Rightarrow> char \<Rightarrow> string" where
  "padStart s n c = (if n \<le> length s then s else replicate (n - length s) c @ s)"

definition secondsToAssTime :: "real \<Rightarrow> string" where
  "secondsToAssTime totalSeconds =
     (let hours = \<lfloor>totalSeconds / 3600\<rfloor>;
          minutes = \<lfloor>js_rem totalSeconds 3600 / 60\<rfloor>;
          seconds = js_rem totalSeconds 60;
          secondsStr = padStart (toFixed2 seconds) 5 (CHR ''0'')
      in int_to_string hours @ '':'' @ padStart (int_to_string minutes) 2 (CHR ''0'')
           @ '':'' @ secondsStr)"

subsection \<open>The compiler state and the flush: \<open>processBlock\<close>\<close>

text \<open>The style header written in front of the events, as the source spells it.\<close>

definition assHeader :: string where
  "assHeader =
     ''[Script Info]\<newline>'' @
     ''Title: Sous-titres TikTok\<newline>'' @
     ''ScriptType: v4.00+\<newline>'' @
     ''Collisions: Normal\<newline>'' @
     ''PlayDepth: 0\<newline>'' @
     ''Timer: 100.0000\<newline>'' @
     ''\<newline>'' @
     ''[V4+ Styles]\<newline>'' @
     ''; Format: Name, Fontname, Fontsize, PrimaryColour, SecondaryColour, OutlineColour, BackColour, Bold, Italic, Underline, StrikeOut, ScaleX, ScaleY, Spacing, Angle, BorderStyle, Outline, Shadow, Alignment, MarginL, MarginR, MarginV, Encoding\<newline>'' @
     ''Format: Name,Fontname,Fontsize,PrimaryColour,SecondaryColour,OutlineColour,BackColour,Bold,Italic,Underline,StrikeOut,ScaleX,ScaleY,Spacing,Angle,BorderStyle,Outline,Shadow,Alignment,MarginL,MarginR,MarginV,Encoding\<newline>'' @
     ''Style: TikTokStyle,Montserrat,12,&H00FFFFFF,&H000000FF,&H00000000,&H64000000,-1,0,0,0,100,100,0,0,1,2,2,2,20,20,50,1\<newline>'' @
     ''\<newline>'' @
     ''[Events]\<newline>'' @
     ''Format: Layer, Start, End, Style, MarginL, MarginR, MarginV, Effect, Text\<newline>''"

text \<open>
  One \<open>Dialogue:\<close> event as the flush computes it: the two times after clamping and the
  words of the chunk.
\<close>

record dialogue =
  chunkStart :: real
  chunkEnd :: real
  chunkWords :: string

text \<open>The line appended to \<open>assBody\<close> for an event.\<close>

definition dialogue_line :: "dialogue \<Rightarrow> string" where
  "dialogue_line e =
     ''Dialogue: 0,'' @ secondsToAssTime (chunkStart e) @ '','' @ secondsToAssTime (chunkEnd e)
       @ '',TikTokStyle,0,0,0,,{'' @ [CHR 0x5C] @ ''fad(200,200)} '' @ chunkWords e
       @ ''\<newline>''"

text \<open>
  The variables that \<open>processBlock\<close> and the line loop share. \<open>emitted\<close> is a ghost field:
  it records, next to the text of \<open>assBody\<close>, the events whose lines were appended, so
  that their times can be spoken about as numbers.
\<close>

record compiler_state =
  assBody :: string
  startTimeSeconds :: real
  endTimeSeconds :: real
  textBuffer :: string
  lastEndTime :: real
  emitted :: "dialogue list"

definition initial_state :: compiler_state where
  "initial_state =
     \<lparr>assBody = [], startTimeSeconds = 0, endTimeSeconds = 0, textBuffer = [],
      lastEndTime = 0, emitted = []\<rparr>"

definition chunkSize :: nat where
  "chunkSize = 4"

text \<open>\<open>xs.slice(a, b)\<close> for indices \<open>0 \<le> a \<le> b\<close>; the end is cut at the length.\<close>

definition js_slice :: "'a list \<Rightarrow> nat \<Rightarrow> nat \<Rightarrow> 'a list" where
  "js_slice xs a b = take (b - a) (drop a xs)"

text \<open>The \<open>for\<close> loop of \<open>processBlock\<close>, from index \<open>i\<close> on.\<close>

function chunk_loop :: "string list \<Rightarrow> real \<Rightarrow> nat \<Rightarrow> compiler_state \<Rightarrow> compiler_state" where
  "chunk_loop words timePerWord i st =
     (if i < length words then
        (let cw = js_join (js_slice words i (i + chunkSize)) '' '';
             cs = startTimeSeconds st + real i * timePerWord;
             ce = startTimeSeconds st + real (min (i + chunkSize) (length words)) * timePerWord;
             cs = (if cs < lastEndTime st then lastEndTime st else cs);
             ce = (if ce > endTimeSeconds st then endTimeSeconds st else ce);
             ev = \<lparr>chunkStart = cs, chunkEnd = ce, chunkWords = cw\<rparr>
         in chunk_loop words timePerWord (i + chunkSize)
              (st\<lparr>assBody := assBody st @ dialogue_line ev,
                  lastEndTime := ce,
                  emitted := emitted st @ [ev]\<rparr>))
      else st)"
  by pat_completeness auto
termination
  by (relation "measure (\<lambda>(words, timePerWord, i, st). length words - i)")
     (auto simp: chunkSize_def)

text \<open>
  What can go wrong in the compiler. JavaScript itself does not raise on a division by
  zero (it yields an infinity or NaN); the model makes a zero divisor an error value, so
  that its absence can be stated. \<open>TypeError\<close> is what calling \<open>trim\<close> on a missing
  element of \<open>times\<close> would raise.
\<close>

datatype js_error = DivisionByZero | TypeError

definition processBlock :: "compiler_state \<Rightarrow> js_error + compiler_state" where
  "processBlock st =
     (if textBuffer st = [] then Inr st
      else
        (let words = js_split (js_trim (textBuffer st)) '' '';
             totalDuration = endTimeSeconds st - startTimeSeconds st
         in if length words = 0 then Inl DivisionByZero
            else
              (let timePerWord = totalDuration / real (length words);
                   st' = chunk_loop words timePerWord 0 st
               in Inr (st'\<lparr>textBuffer := [], lastEndTime := 0\<rparr>))))"

subsection \<open>The line loop: \<open>convertSrtToAss\<close>\<close>

text \<open>The body of \<open>lines.forEach\<close>: the four classes of a line, in the order tested.\<close>

definition line_step :: "compiler_state \<Rightarrow> string \<Rightarrow> js_error + compiler_state" where
  "line_step st line =
     (if all_digits line then Inr st
      else if js_includes line ''-->'' then
        (case processBlock st of
           Inl e \<Rightarrow> Inl e
         | Inr st1 \<Rightarrow>
             (case js_split line ''-->'' of
                t0 # t1 # ts \<Rightarrow>
                  Inr (st1\<lparr>startTimeSeconds := timeStringToSeconds (js_trim t0),
                           endTimeSeconds := timeStringToSeconds (js_trim t1)\<rparr>)
              | _ \<Rightarrow> Inl TypeError))
      else if js_trim line \<noteq> [] then
        Inr (st\<lparr>textBuffer := textBuffer st @ js_trim line @ '' ''\<rparr>)
      else processBlock st)"

fun run_lines :: "compiler_state \<Rightarrow> string list \<Rightarrow> js_error + compiler_state" where
  "run_lines st [] = Inr st"
| "run_lines st (line # lines) =
     (case line_step st line of Inl e \<Rightarrow> Inl e | Inr st' \<Rightarrow> run_lines st' lines)"

text \<open>The loop over the lines, then the flush of the last block.\<close>

definition compile_lines :: "string list \<Rightarrow> js_error + compiler_state" where
  "compile_lines lines =
     (case run_lines initial_state lines of Inl e \<Rightarrow> Inl e | Inr st \<Rightarrow> processBlock st)"

text \<open>The text written to the output file.\<close>

definition convertSrtToAss :: "string \<Rightarrow> js_error + string" where
  "convertSrtToAss data =
     (case compile_lines (js_split data ''\<newline>'') of
        Inl e \<Rightarrow> Inl e
      | Inr st \<Rightarrow> Inr (assHeader @ ''\<newline>'' @ assBody st))"

section \<open>Words by white space\<close>



section \<open>Example inputs\<close>

text \<open>
  The block of the specification's worked example: the window from 1 s to 9 s and eight
  accumulated words.
\<close>

definition example_block :: compiler_state where
  "example_block =
     initial_state\<lparr>startTimeSeconds := 1, endTimeSeconds := 9,
                    textBuffer := ''one two three four five six seven eight ''\<rparr>"


section \<open>Verification of the script aligner\<close>

lemma correct_loop_Cons:
  "correct_loop ss (l # ls) (out, k) =
     (if content_line l
      then (if k < length ss then correct_loop ss ls (out @ js_trim (ss ! k) @ ''\<newline>'', Suc k)
            else correct_loop ss ls (out, k))
      else correct_loop ss ls (out @ l @ ''\<newline>'', k))"
  by (simp add: content_line_def)

lemma content_rank_0: "content_rank ls 0 = 0"
  by (simp add: content_rank_def)

lemma content_rank_Suc:
  "content_rank (l # ls) (Suc i) = (if content_line l then Suc (content_rank ls i) else content_rank ls i)"
  by (simp add: content_rank_def)

lemma upt_length_Cons: "[0..<length (l # ls)] = 0 # map Suc [0..<length ls]"
  by (simp add: upt_conv_Cons map_Suc_upt del: upt_Suc)

lemma correct_loop_fst:
  "fst (correct_loop ss ls (out, k)) =
     out @ concat (map (\<lambda>i. if content_line (ls ! i)
                              then (if k + content_rank ls i < length ss
                                    then js_trim (ss ! (k + content_rank ls i)) @ ''\<newline>'' else [])
                              else ls ! i @ ''\<newline>'') [0..<length ls])"
proof (induction ls arbitrary: out k)
  case Nil
  show ?case by simp
next
  case (Cons l ls)
  show ?case
  proof (cases "content_line l")
    case True
    then show ?thesis
      unfolding upt_length_Cons correct_loop_Cons
      by (simp add: Cons.IH content_rank_0 content_rank_Suc o_def del: upt_Suc correct_loop.simps cong: if_cong)
  next
    case False
    then show ?thesis
      unfolding upt_length_Cons correct_loop_Cons
      by (simp add: Cons.IH content_rank_0 content_rank_Suc o_def del: upt_Suc correct_loop.simps cong: if_cong)
  qed
qed

lemma content_rank_le: "content_rank ls i \<le> length (filter content_line ls)"
proof -
  have "filter content_line ls = filter content_line (take i ls) @ filter content_line (drop i ls)"
    by (metis append_take_drop_id filter_append)
  then show ?thesis by (simp add: content_rank_def)
qed

lemma content_rank_lt:
  assumes "i < length ls" "content_line (ls ! i)"
  shows "content_rank ls i < length (filter content_line ls)"
proof -
  have "ls = take i ls @ ls ! i # drop (Suc i) ls"
    using assms(1) by (simp add: id_take_nth_drop)
  then have "filter content_line ls =
      filter content_line (take i ls) @ filter content_line (ls ! i # drop (Suc i) ls)"
    by (metis filter_append)
  then show ?thesis using assms(2) by (simp add: content_rank_def)
qed

lemma content_rank_positions:
  "map (content_rank ls) (filter (\<lambda>i. content_line (ls ! i)) [0..<length ls]) =
     [0..<length (filter content_line ls)]"
proof (induction ls rule: rev_induct)
  case Nil
  show ?case by simp
next
  case (snoc x xs)
  have f: "filter (\<lambda>i. content_line ((xs @ [x]) ! i)) [0..<length xs] =
           filter (\<lambda>i. content_line (xs ! i)) [0..<length xs]"
    by (rule filter_cong) (auto simp: nth_append)
  have m: "map (content_rank (xs @ [x])) (filter (\<lambda>i. content_line (xs ! i)) [0..<length xs]) =
           map (content_rank xs) (filter (\<lambda>i. content_line (xs ! i)) [0..<length xs])"
    by (rule map_cong) (auto simp: content_rank_def)
  show ?case
    using snoc.IH by (simp add: f m) (simp add: content_rank_def)
qed

lemma map_nth_upt_take: "n \<le> length xs \<Longrightarrow> map ((!) xs) [0..<n] = take n xs"
  by (simp add: list_eq_iff_nth_eq)

lemma aligned_lines_enough:
  fixes ls ss :: "string list"
  shows "length (filter content_line ls) \<le> length ss \<longrightarrow>
        fst (correct_loop ss ls ([], 0)) =
          concat (map (\<lambda>l. l @ ''\<newline>'')
            (map (\<lambda>i. if content_line (ls ! i) then js_trim (ss ! content_rank ls i) else ls ! i)
               [0..<length ls])) \<and>
        (\<forall>i<length ls. timing_line (ls ! i) \<longrightarrow>
           map (\<lambda>i. if content_line (ls ! i) then js_trim (ss ! content_rank ls i) else ls ! i)
             [0..<length ls] ! i = ls ! i) \<and>
        map ((!) (map (\<lambda>i. if content_line (ls ! i) then js_trim (ss ! content_rank ls i) else ls ! i)
                    [0..<length ls]))
            (filter (\<lambda>i. content_line (ls ! i)) [0..<length ls]) =
          map js_trim (take (length (filter content_line ls)) ss)"
proof -
  define f where "f = (\<lambda>i. if content_line (ls ! i) then js_trim (ss ! content_rank ls i) else ls ! i)"
  have "length (filter content_line ls) \<le> length ss \<longrightarrow>
        fst (correct_loop ss ls ([], 0)) = concat (map (\<lambda>l. l @ ''\<newline>'') (map f [0..<length ls])) \<and>
        (\<forall>i<length ls. timing_line (ls ! i) \<longrightarrow> map f [0..<length ls] ! i = ls ! i) \<and>
        map ((!) (map f [0..<length ls])) (filter (\<lambda>i. content_line (ls ! i)) [0..<length ls]) =
          map js_trim (take (length (filter content_line ls)) ss)"
  proof (intro impI conjI allI)
    assume le: "length (filter content_line ls) \<le> length ss"
    have "concat (map (\<lambda>i. if content_line (ls ! i)
                              then (if 0 + content_rank ls i < length ss
                                    then js_trim (ss ! (0 + content_rank ls i)) @ ''\<newline>'' else [])
                              else ls ! i @ ''\<newline>'') [0..<length ls])
          = concat (map (\<lambda>i. f i @ ''\<newline>'') [0..<length ls])"
    proof (rule arg_cong [where f = concat], rule map_cong [OF refl])
      fix i assume "i \<in> set [0..<length ls]"
      then have i: "i < length ls" by simp
      show "(if content_line (ls ! i)
             then (if 0 + content_rank ls i < length ss
                   then js_trim (ss ! (0 + content_rank ls i)) @ ''\<newline>'' else [])
             else ls ! i @ ''\<newline>'') = f i @ ''\<newline>''"
        using content_rank_lt [OF i] le by (auto simp: f_def)
    qed
    then show "fst (correct_loop ss ls ([], 0)) = concat (map (\<lambda>l. l @ ''\<newline>'') (map f [0..<length ls]))"
      by (simp add: correct_loop_fst o_def)
  next
    fix i assume "i < length ls" "timing_line (ls ! i)"
    then show "map f [0..<length ls] ! i = ls ! i"
      by (simp add: f_def content_line_def timing_line_def)
  next
    assume le: "length (filter content_line ls) \<le> length ss"
    have "map ((!) (map f [0..<length ls])) (filter (\<lambda>i. content_line (ls ! i)) [0..<length ls])
          = map (\<lambda>i. js_trim (ss ! content_rank ls i)) (filter (\<lambda>i. content_line (ls ! i)) [0..<length ls])"
      by (rule map_cong) (auto simp: f_def)
    also have "\<dots> = map (\<lambda>k. js_trim (ss ! k)) (map (content_rank ls) (filter (\<lambda>i. content_line (ls ! i)) [0..<length ls]))"
      by (simp add: o_def)
    also have "\<dots> = map js_trim (map ((!) ss) [0..<length (filter content_line ls)])"
      by (simp add: content_rank_positions o_def)
    also have "\<dots> = map js_trim (take (length (filter content_line ls)) ss)"
      using le by (simp only: map_nth_upt_take)
    finally show "map ((!) (map f [0..<length ls])) (filter (\<lambda>i. content_line (ls ! i)) [0..<length ls]) =
          map js_trim (take (length (filter content_line ls)) ss)" .
  qed
  then show ?thesis unfolding f_def .
qed

lemma split_scan_char:
  "split_scan [x] piece (c # cs) =
     (if c = x then piece # split_scan [x] [] cs else split_scan [x] (piece @ [c]) cs)"
  by simp

lemma split_scan_line:
  "x \<notin> set l \<Longrightarrow> split_scan [x] piece (l @ x # rest) = (piece @ l) # split_scan [x] [] rest"
proof (induction l arbitrary: piece)
  case Nil
  show ?case by (simp add: split_scan_char del: split_scan.simps)
next
  case (Cons c l)
  then have c: "c \<noteq> x" and l: "x \<notin> set l" by auto
  have "split_scan [x] piece ((c # l) @ x # rest) = split_scan [x] (piece @ [c]) (l @ x # rest)"
    using c by (simp add: split_scan_char del: split_scan.simps)
  also have "\<dots> = ((piece @ [c]) @ l) # split_scan [x] [] rest"
    by (rule Cons.IH [OF l])
  finally show ?case by simp
qed

lemma split_scan_unlines:
  "\<forall>l\<in>set ls. x \<notin> set l \<Longrightarrow>
   split_scan [x] [] (concat (map (\<lambda>l. l @ [x]) ls)) = ls @ [[]]"
proof (induction ls)
  case Nil
  show ?case by simp
next
  case (Cons l ls)
  then have a: "x \<notin> set l" and b: "\<forall>l\<in>set ls. x \<notin> set l" by simp_all
  have "concat (map (\<lambda>l. l @ [x]) (l # ls)) = l @ x # concat (map (\<lambda>l. l @ [x]) ls)"
    by simp
  then show ?case
    using split_scan_line [OF a, of "[]" "concat (map (\<lambda>l. l @ [x]) ls)"] Cons.IH [OF b]
    by (simp del: split_scan.simps)
qed

lemma split_scan_pieces:
  "x \<notin> set piece \<Longrightarrow> \<forall>p\<in>set (split_scan [x] piece s). x \<notin> set p"
proof (induction s arbitrary: piece)
  case Nil
  then show ?case by simp
next
  case (Cons c cs)
  show ?case
  proof (cases "c = x")
    case True
    with Cons.prems Cons.IH [of "[]"] show ?thesis
      by (simp only: split_scan_char if_True) simp
  next
    case False
    with Cons.prems have "x \<notin> set (piece @ [c])" by simp
    from Cons.IH [OF this] False show ?thesis
      by (simp only: split_scan_char if_False)
  qed
qed

lemma js_split_pieces: "\<forall>p\<in>set (js_split s [x]). x \<notin> set p"
  using split_scan_pieces [of x "[]" s] by (simp add: js_split_def)

lemma js_split_unlines:
  "\<forall>l\<in>set ls. x \<notin> set l \<Longrightarrow> js_split (concat (map (\<lambda>l. l @ [x]) ls)) [x] = ls @ [[]]"
  by (simp add: js_split_def split_scan_unlines del: split_scan.simps)

lemma filter_nth_upt:
  "filter P ls = map ((!) ls) (filter (\<lambda>i. P (ls ! i)) [0..<length ls])"
proof -
  have "filter P (map ((!) ls) [0..<length ls]) =
          map ((!) ls) (filter (P \<circ> (!) ls) [0..<length ls])"
    by (rule filter_map)
  then show ?thesis by (simp add: map_nth o_def)
qed

lemma not_content_empty: "\<not> content_line []" "\<not> timing_line []"
  by (simp_all add: content_line_def timing_line_def js_trim_def)

lemma aligned_text_lines:
  fixes ls ss :: "string list"
  defines "f \<equiv> (\<lambda>i. if content_line (ls ! i) then js_trim (ss ! content_rank ls i) else ls ! i)"
  assumes le: "length (filter content_line ls) \<le> length ss"
    and wf: "\<forall>s\<in>set (take (length (filter content_line ls)) ss).
               content_line (js_trim s) \<and> CHR ''\<newline>'' \<notin> set (js_trim s)"
    and nl: "\<forall>l\<in>set ls. CHR ''\<newline>'' \<notin> set l"
  shows "js_split (fst (correct_loop ss ls ([], 0))) ''\<newline>'' = map f [0..<length ls] @ [[]]"
    and "filter content_line (map f [0..<length ls] @ [[]]) =
           map js_trim (take (length (filter content_line ls)) ss)"
    and "filter timing_line (map f [0..<length ls] @ [[]]) = filter timing_line ls"
    and "\<forall>i<length ls. timing_line ((map f [0..<length ls] @ [[]]) ! i) = timing_line (ls ! i)"
    and "\<forall>i<length ls. timing_line (ls ! i) \<longrightarrow> (map f [0..<length ls] @ [[]]) ! i = ls ! i"
proof -
  have sent: "content_line (js_trim (ss ! content_rank ls i)) \<and>
              CHR ''\<newline>'' \<notin> set (js_trim (ss ! content_rank ls i))"
    if "i < length ls" "content_line (ls ! i)" for i
  proof -
    have r: "content_rank ls i < length (filter content_line ls)"
      using that by (rule content_rank_lt)
    with le have "ss ! content_rank ls i \<in> set (take (length (filter content_line ls)) ss)"
      by (auto simp: in_set_conv_nth intro!: exI [of _ "content_rank ls i"])
    with wf show ?thesis by blast
  qed
  have fc: "content_line (f i) = content_line (ls ! i)" if "i < length ls" for i
    using sent [OF that] by (auto simp: f_def)
  have ft: "timing_line (f i) = timing_line (ls ! i)" if "i < length ls" for i
    using sent [OF that] by (auto simp: f_def content_line_def timing_line_def)
  have fn: "CHR ''\<newline>'' \<notin> set (f i)" if "i < length ls" for i
    using sent [OF that] nl that by (auto simp: f_def)
  have "\<forall>l\<in>set (map f [0..<length ls]). CHR ''\<newline>'' \<notin> set l"
    using fn by auto
  from js_split_unlines [OF this]
  have "js_split (concat (map (\<lambda>l. l @ ''\<newline>'') (map f [0..<length ls]))) ''\<newline>''
          = map f [0..<length ls] @ [[]]" .
  moreover have "fst (correct_loop ss ls ([], 0)) =
      concat (map (\<lambda>l. l @ ''\<newline>'') (map f [0..<length ls]))"
    using aligned_lines_enough [of ls ss] le unfolding f_def by blast
  ultimately show "js_split (fst (correct_loop ss ls ([], 0))) ''\<newline>'' = map f [0..<length ls] @ [[]]"
    by simp
  have "filter content_line (map f [0..<length ls]) =
          map f (filter (content_line \<circ> f) [0..<length ls])"
    by (rule filter_map)
  also have "filter (content_line \<circ> f) [0..<length ls] =
               filter (\<lambda>i. content_line (ls ! i)) [0..<length ls]"
    by (rule filter_cong) (simp_all add: fc)
  also have "map f (filter (\<lambda>i. content_line (ls ! i)) [0..<length ls]) =
      map ((!) (map f [0..<length ls])) (filter (\<lambda>i. content_line (ls ! i)) [0..<length ls])"
    by (rule map_cong) simp_all
  also have "\<dots> = map js_trim (take (length (filter content_line ls)) ss)"
    using aligned_lines_enough [of ls ss] le unfolding f_def by blast
  finally show "filter content_line (map f [0..<length ls] @ [[]]) =
           map js_trim (take (length (filter content_line ls)) ss)"
    by (simp add: not_content_empty)
  have "filter timing_line (map f [0..<length ls]) =
          map f (filter (timing_line \<circ> f) [0..<length ls])"
    by (rule filter_map)
  also have "filter (timing_line \<circ> f) [0..<length ls] =
               filter (\<lambda>i. timing_line (ls ! i)) [0..<length ls]"
    by (rule filter_cong) (simp_all add: ft)
  also have "map f (filter (\<lambda>i. timing_line (ls ! i)) [0..<length ls]) =
      map ((!) ls) (filter (\<lambda>i. timing_line (ls ! i)) [0..<length ls])"
    by (rule map_cong) (auto simp: f_def content_line_def timing_line_def)
  also have "\<dots> = filter timing_line ls"
    by (rule filter_nth_upt [symmetric])
  finally show "filter timing_line (map f [0..<length ls] @ [[]]) = filter timing_line ls"
    by (simp add: not_content_empty)
  show "\<forall>i<length ls. timing_line ((map f [0..<length ls] @ [[]]) ! i) = timing_line (ls ! i)"
    by (simp add: nth_append ft)
  show "\<forall>i<length ls. timing_line (ls ! i) \<longrightarrow> (map f [0..<length ls] @ [[]]) ! i = ls ! i"
    by (simp add: nth_append f_def content_line_def timing_line_def)
qed


text \<open>
  Claim C2 says that, with enough sentences, the content lines of the aligned output
  are exactly the first \<open>N\<close> sentences. A sentence is written as it is, whatever it
  looks like: with four content lines and the script \<open>3. 2. 1. Go\<close> the output has the
  lines \<open>3\<close>, \<open>2\<close>, \<open>1\<close>, \<open>Go\<close>, of which only \<open>Go\<close> is a content line, the others being
  pure integers.
\<close>

theorem aligner_enough_sentences_counterexample:
  "length (filter content_line (js_split ''a\<newline>b\<newline>c\<newline>d'' ''\<newline>'')) = 4 \<and>
   js_split ''3. 2. 1. Go'' ''. '' = [''3'', ''2'', ''1'', ''Go''] \<and>
   correctSubtitles ''a\<newline>b\<newline>c\<newline>d'' ''3. 2. 1. Go'' = ''3\<newline>2\<newline>1\<newline>Go\<newline>'' \<and>
   filter content_line (js_split (correctSubtitles ''a\<newline>b\<newline>c\<newline>d'' ''3. 2. 1. Go'') ''\<newline>'')
     = [''Go''] \<and>
   filter content_line (js_split (correctSubtitles ''a\<newline>b\<newline>c\<newline>d'' ''3. 2. 1. Go'') ''\<newline>'')
     \<noteq> map js_trim (take 4 (js_split ''3. 2. 1. Go'' ''. ''))"
  by code_simp

text \<open>
  Claim C2, as amended. When the reference script has at least as many sentences as
  the transcript has content lines, and each of the first \<open>N\<close> sentences, trimmed, is
  itself a content line (not blank, not a pure integer, without the arrow) and has no
  line feed in it, then the content lines of the text written are exactly the first
  \<open>N\<close> sentences, trimmed, in order, and every timing line of the text written is the
  input line at the same position, byte for byte: the timing lines of input and output
  are at the same positions and are the same lines. \<open>outLines\<close> are the lines of the
  text written, split on the line feed as the compiler does.
\<close>

theorem aligner_enough_sentences:
  "let srtLines = js_split srtData ''\<newline>'';
       scriptSentences = js_split scriptData ''. '';
       N = length (filter content_line srtLines);
       outLines = js_split (correctSubtitles srtData scriptData) ''\<newline>''
   in N \<le> length scriptSentences \<and>
      (\<forall>s\<in>set (take N scriptSentences).
         content_line (js_trim s) \<and> CHR ''\<newline>'' \<notin> set (js_trim s)) \<longrightarrow>
        filter content_line outLines = map js_trim (take N scriptSentences) \<and>
        filter timing_line outLines = filter timing_line srtLines \<and>
        (\<forall>i<length srtLines. timing_line (outLines ! i) = timing_line (srtLines ! i)) \<and>
        (\<forall>i<length srtLines. timing_line (srtLines ! i) \<longrightarrow> outLines ! i = srtLines ! i) \<and>
        outLines =
          map (\<lambda>i. if content_line (srtLines ! i)
                    then js_trim (scriptSentences ! content_rank srtLines i)
                    else srtLines ! i) [0..<length srtLines] @ [[]]"
proof -
  define ls where "ls = js_split srtData ''\<newline>''"
  define ss where "ss = js_split scriptData ''. ''"
  have nl: "\<forall>l\<in>set ls. CHR ''\<newline>'' \<notin> set l"
    unfolding ls_def by (rule js_split_pieces)
  have "filter content_line (js_split (fst (correct_loop ss ls ([], 0))) ''\<newline>'')
          = map js_trim (take (length (filter content_line ls)) ss) \<and>
        filter timing_line (js_split (fst (correct_loop ss ls ([], 0))) ''\<newline>'')
          = filter timing_line ls \<and>
        (\<forall>i<length ls. timing_line (js_split (fst (correct_loop ss ls ([], 0))) ''\<newline>'' ! i)
                          = timing_line (ls ! i)) \<and>
        (\<forall>i<length ls. timing_line (ls ! i) \<longrightarrow>
            js_split (fst (correct_loop ss ls ([], 0))) ''\<newline>'' ! i = ls ! i) \<and>
        js_split (fst (correct_loop ss ls ([], 0))) ''\<newline>'' =
          map (\<lambda>i. if content_line (ls ! i) then js_trim (ss ! content_rank ls i) else ls ! i)
            [0..<length ls] @ [[]]"
    if le: "length (filter content_line ls) \<le> length ss"
      and wf: "\<forall>s\<in>set (take (length (filter content_line ls)) ss).
                 content_line (js_trim s) \<and> CHR ''\<newline>'' \<notin> set (js_trim s)"
    unfolding aligned_text_lines(1) [OF le wf nl]
    by (intro conjI aligned_text_lines(2-5) [OF le wf nl] refl)
  then show ?thesis
    unfolding Let_def correctSubtitles_def ls_def ss_def by blast
qed

theorem aligner_enough_sentences_witness:
  "length (filter content_line (js_split ''1\<newline>00:00:01,000 --> 00:00:02,000\<newline>hello\<newline>'' ''\<newline>''))
     \<le> length (js_split '' Foo . Bar'' ''. '') \<and>
   take (length (filter content_line
           (js_split ''1\<newline>00:00:01,000 --> 00:00:02,000\<newline>hello\<newline>'' ''\<newline>'')))
         (js_split '' Foo . Bar'' ''. '') = ['' Foo ''] \<and>
   content_line (js_trim '' Foo '') \<and> CHR ''\<newline>'' \<notin> set (js_trim '' Foo '') \<and>
   timing_line (js_split ''1\<newline>00:00:01,000 --> 00:00:02,000\<newline>hello\<newline>'' ''\<newline>'' ! 1) \<and>
   correctSubtitles ''1\<newline>00:00:01,000 --> 00:00:02,000\<newline>hello\<newline>'' '' Foo . Bar''
     = ''1\<newline>00:00:01,000 --> 00:00:02,000\<newline>Foo\<newline>\<newline>'' \<and>
   filter content_line (js_split
       (correctSubtitles ''1\<newline>00:00:01,000 --> 00:00:02,000\<newline>hello\<newline>'' '' Foo . Bar'') ''\<newline>'')
     = map js_trim (take 1 (js_split '' Foo . Bar'' ''. '')) \<and>
   js_split (correctSubtitles ''1\<newline>00:00:01,000 --> 00:00:02,000\<newline>hello\<newline>'' '' Foo . Bar'')
       ''\<newline>'' ! 1
     = js_split ''1\<newline>00:00:01,000 --> 00:00:02,000\<newline>hello\<newline>'' ''\<newline>'' ! 1"
proof -
  have n: "length (filter content_line
             (js_split ''1\<newline>00:00:01,000 --> 00:00:02,000\<newline>hello\<newline>'' ''\<newline>'')) = 1"
    by code_simp
  have l: "length (js_split ''1\<newline>00:00:01,000 --> 00:00:02,000\<newline>hello\<newline>'' ''\<newline>'') = 4"
    by code_simp
  have h: "length (filter content_line (js_split ''1\<newline>00:00:01,000 --> 00:00:02,000\<newline>hello\<newline>'' ''\<newline>''))
     \<le> length (js_split '' Foo . Bar'' ''. '')"
    by code_simp
  have w: "\<forall>s\<in>set (take (length (filter content_line
           (js_split ''1\<newline>00:00:01,000 --> 00:00:02,000\<newline>hello\<newline>'' ''\<newline>'')))
         (js_split '' Foo . Bar'' ''. '')).
      content_line (js_trim s) \<and> CHR ''\<newline>'' \<notin> set (js_trim s)"
    by code_simp
  have t: "timing_line (js_split ''1\<newline>00:00:01,000 --> 00:00:02,000\<newline>hello\<newline>'' ''\<newline>'' ! 1)"
    by code_simp
  have c: "correctSubtitles ''1\<newline>00:00:01,000 --> 00:00:02,000\<newline>hello\<newline>'' '' Foo . Bar''
     = ''1\<newline>00:00:01,000 --> 00:00:02,000\<newline>Foo\<newline>\<newline>''"
    by code_simp
  note T = aligner_enough_sentences
    [of "''1\<newline>00:00:01,000 --> 00:00:02,000\<newline>hello\<newline>''" "'' Foo . Bar''",
     unfolded Let_def, THEN mp, OF conjI [OF h w]]
  have a: "filter content_line (js_split
       (correctSubtitles ''1\<newline>00:00:01,000 --> 00:00:02,000\<newline>hello\<newline>'' '' Foo . Bar'') ''\<newline>'')
     = map js_trim (take 1 (js_split '' Foo . Bar'' ''. ''))"
    using T [THEN conjunct1] unfolding n .
  have "1 < length (js_split ''1\<newline>00:00:01,000 --> 00:00:02,000\<newline>hello\<newline>'' ''\<newline>'')"
    unfolding l by simp
  with T [THEN conjunct2, THEN conjunct2, THEN conjunct2, THEN conjunct1] t
  have b: "js_split (correctSubtitles ''1\<newline>00:00:01,000 --> 00:00:02,000\<newline>hello\<newline>'' '' Foo . Bar'')
       ''\<newline>'' ! 1
     = js_split ''1\<newline>00:00:01,000 --> 00:00:02,000\<newline>hello\<newline>'' ''\<newline>'' ! 1"
    by blast
  have k: "take (length (filter content_line
           (js_split ''1\<newline>00:00:01,000 --> 00:00:02,000\<newline>hello\<newline>'' ''\<newline>'')))
         (js_split '' Foo . Bar'' ''. '') = ['' Foo '']"
    by code_simp
  have g: "content_line (js_trim '' Foo '')" "CHR ''\<newline>'' \<notin> set (js_trim '' Foo '')"
    by code_simp+
  show ?thesis by (intro conjI h k g t c a b)
qed

text \<open>
  Claim C1 says that a content line met after the sentences have run out keeps its
  original text. The loop writes nothing for such a line: with the two content lines
  \<open>a\<close>, \<open>b\<close> and the single sentence \<open>X\<close> the text written is \<open>X\<close> alone, and \<open>b\<close> is gone.
\<close>

theorem aligner_exhausted_counterexample:
  "length (js_split ''X'' ''. '') < length (filter content_line (js_split ''a\<newline>b'' ''\<newline>'')) \<and>
   filter content_line (js_split ''a\<newline>b'' ''\<newline>'') = [''a'', ''b''] \<and>
   correctSubtitles ''a\<newline>b'' ''X'' = ''X\<newline>'' \<and>
   correctSubtitles ''a\<newline>b'' ''X'' \<noteq> ''X\<newline>b\<newline>'' \<and>
   \<not> js_includes (correctSubtitles ''a\<newline>b'' ''X'') ''b''"
  by code_simp

text \<open>
  Claim C1, as amended. When the reference script has \<open>M\<close> sentences and the transcript
  has more than \<open>M\<close> content lines, the first \<open>M\<close> content lines are replaced by the \<open>M\<close>
  trimmed sentences, every later content line is left out of the text written, and
  every line that is not a content line is written unchanged.
\<close>

theorem aligner_exhausted_drops:
  "let srtLines = js_split srtData ''\<newline>'';
       scriptSentences = js_split scriptData ''. '';
       N = length (filter content_line srtLines);
       M = length scriptSentences
   in M < N \<longrightarrow>
        correctSubtitles srtData scriptData =
          concat (map (\<lambda>i. if content_line (srtLines ! i)
                            then (if content_rank srtLines i < M
                                  then js_trim (scriptSentences ! content_rank srtLines i) @ ''\<newline>''
                                  else [])
                            else srtLines ! i @ ''\<newline>'') [0..<length srtLines])"
  unfolding Let_def correctSubtitles_def
  using correct_loop_fst [of "js_split scriptData ''. ''" "js_split srtData ''\<newline>''" "[]" 0]
  by (simp cong: if_cong)

theorem aligner_exhausted_drops_witness:
  "length (js_split ''X'' ''. '') < length (filter content_line (js_split ''1\<newline>a\<newline>\<newline>2\<newline>b'' ''\<newline>'')) \<and>
   correctSubtitles ''1\<newline>a\<newline>\<newline>2\<newline>b'' ''X'' = ''1\<newline>X\<newline>\<newline>2\<newline>''"
proof -
  have h: "length (js_split ''X'' ''. '') < length (filter content_line (js_split ''1\<newline>a\<newline>\<newline>2\<newline>b'' ''\<newline>''))"
    by code_simp
  note T = aligner_exhausted_drops [of "''1\<newline>a\<newline>\<newline>2\<newline>b''" "''X''", unfolded Let_def, THEN mp, OF h]
  have e: "concat (map (\<lambda>i. if content_line (js_split ''1\<newline>a\<newline>\<newline>2\<newline>b'' ''\<newline>'' ! i)
                            then (if content_rank (js_split ''1\<newline>a\<newline>\<newline>2\<newline>b'' ''\<newline>'') i < length (js_split ''X'' ''. '')
                                  then js_trim (js_split ''X'' ''. '' ! content_rank (js_split ''1\<newline>a\<newline>\<newline>2\<newline>b'' ''\<newline>'') i) @ ''\<newline>''
                                  else [])
                            else js_split ''1\<newline>a\<newline>\<newline>2\<newline>b'' ''\<newline>'' ! i @ ''\<newline>'')
                 [0..<length (js_split ''1\<newline>a\<newline>\<newline>2\<newline>b'' ''\<newline>'')])
           = ''1\<newline>X\<newline>\<newline>2\<newline>''"
    by code_simp
  show ?thesis using h T e by simp
qed

section \<open>Verification of the caption compiler\<close>

subsection \<open>Splitting, and the loop over the chunks\<close>

declare chunk_loop.simps [simp del]

lemma split_scan_nonempty: "split_scan sep piece s \<noteq> []"
  by (induction sep piece s rule: split_scan.induct) auto

lemma js_split_nonempty: "sep \<noteq> [] \<Longrightarrow> js_split s sep \<noteq> []"
  by (simp add: js_split_def split_scan_nonempty)

lemma split_scan_two:
  "sep \<noteq> [] \<Longrightarrow> js_includes s sep \<Longrightarrow> \<exists>a b r. split_scan sep piece s = a # b # r"
proof (induction sep piece s rule: split_scan.induct)
  case (1 sep piece)
  then show ?case by simp
next
  case (2 sep piece c cs)
  show ?case
  proof (cases "prefix sep (c # cs)")
    case True
    obtain x xs where "split_scan sep [] (drop (length sep) (c # cs)) = x # xs"
      using split_scan_nonempty [of sep "[]" "drop (length sep) (c # cs)"]
      by (cases "split_scan sep [] (drop (length sep) (c # cs))") auto
    with True "2.prems" show ?thesis by simp
  next
    case False
    with "2.prems" have "js_includes cs sep" by simp
    with False "2.prems" "2.IH"(2) show ?thesis by simp
  qed
qed

lemma js_split_two:
  "sep \<noteq> [] \<Longrightarrow> js_includes s sep \<Longrightarrow> \<exists>a b r. js_split s sep = a # b # r"
  by (simp add: js_split_def split_scan_two)

lemma chunk_loop_window:
  "startTimeSeconds (chunk_loop w tpw i st) = startTimeSeconds st \<and>
   endTimeSeconds (chunk_loop w tpw i st) = endTimeSeconds st \<and>
   textBuffer (chunk_loop w tpw i st) = textBuffer st"
proof (induction w tpw i st rule: chunk_loop.induct)
  case (1 w tpw i st)
  show ?case
  proof (cases "i < length w")
    case True
    then show ?thesis
      using "1.IH" [OF True refl refl refl refl refl refl]
      by (subst (1 2 3) chunk_loop.simps) (simp add: Let_def)
  next
    case False
    then show ?thesis by (subst (1 2 3) chunk_loop.simps) simp
  qed
qed

lemma chunk_count_step:
  assumes "i < n"
  shows "Suc ((n - (i + 4) + 3) div 4) = (n - i + 3) div (4::nat)"
proof (cases "i + 4 \<le> n")
  case True
  then have "n - i + 3 = (n - (i + 4) + 3) + 4" by simp
  then have a: "(n - i + 3) div 4 = ((n - (i + 4) + 3) + 4) div 4" by (rule arg_cong)
  have b: "((n - (i + 4) + 3) + 4) div 4 = (n - (i + 4) + 3) div 4 + 1"
    by (rule div_add_self2) simp
  show ?thesis by (simp only: a b Suc_eq_plus1)
next
  case False
  then have z: "n - (i + 4) = 0" by simp
  from False assms have "4 * 1 \<le> n - i + 3" "n - i + 3 < 4 * Suc 1" by simp_all
  then have "(n - i + 3) div 4 = 1" by (rule div_nat_eqI)
  then show ?thesis by (simp add: z)
qed

lemma chunk_loop_events:
  "\<exists>evs. emitted (chunk_loop w tpw i st) = emitted st @ evs \<and>
         assBody (chunk_loop w tpw i st) = assBody st @ concat (map dialogue_line evs) \<and>
         length evs = (length w - i + 3) div 4 \<and>
         (\<forall>j<length evs. chunkWords (evs ! j) = js_join (js_slice w (i + 4 * j) (i + 4 * j + 4)) '' '') \<and>
         (\<forall>e\<in>set evs. chunkEnd e \<le> endTimeSeconds st) \<and>
         (evs \<noteq> [] \<longrightarrow> lastEndTime st \<le> chunkStart (hd evs)) \<and>
         (\<forall>j. Suc j < length evs \<longrightarrow> chunkEnd (evs ! j) \<le> chunkStart (evs ! Suc j)) \<and>
         (0 \<le> tpw \<longrightarrow> (\<forall>e\<in>set evs. startTimeSeconds st \<le> chunkStart e))"
proof (induction w tpw i st rule: chunk_loop.induct)
  case (1 w tpw i st)
  show ?case
  proof (cases "i < length w")
    case False
    then show ?thesis by (subst (1 2) chunk_loop.simps) simp
  next
    case True
    define cs0 where "cs0 = startTimeSeconds st + real i * tpw"
    define ce0 where "ce0 = startTimeSeconds st + real (min (i + 4) (length w)) * tpw"
    define cs where "cs = (if cs0 < lastEndTime st then lastEndTime st else cs0)"
    define ce where "ce = (if ce0 > endTimeSeconds st then endTimeSeconds st else ce0)"
    define ev where "ev = \<lparr>chunkStart = cs, chunkEnd = ce,
                           chunkWords = js_join (js_slice w i (i + 4)) '' ''\<rparr>"
    define st' where "st' = st\<lparr>assBody := assBody st @ dialogue_line ev, lastEndTime := ce,
                               emitted := emitted st @ [ev]\<rparr>"
    have step: "chunk_loop w tpw i st = chunk_loop w tpw (i + 4) st'"
      using True
      by (subst chunk_loop.simps) (simp add: Let_def st'_def ev_def ce_def cs_def ce0_def cs0_def chunkSize_def)
    have IH: "\<exists>evs. emitted (chunk_loop w tpw (i + 4) st') = emitted st' @ evs \<and>
         assBody (chunk_loop w tpw (i + 4) st') = assBody st' @ concat (map dialogue_line evs) \<and>
         length evs = (length w - (i + 4) + 3) div 4 \<and>
         (\<forall>j<length evs. chunkWords (evs ! j) =
             js_join (js_slice w (i + 4 + 4 * j) (i + 4 + 4 * j + 4)) '' '') \<and>
         (\<forall>e\<in>set evs. chunkEnd e \<le> endTimeSeconds st') \<and>
         (evs \<noteq> [] \<longrightarrow> lastEndTime st' \<le> chunkStart (hd evs)) \<and>
         (\<forall>j. Suc j < length evs \<longrightarrow> chunkEnd (evs ! j) \<le> chunkStart (evs ! Suc j)) \<and>
         (0 \<le> tpw \<longrightarrow> (\<forall>e\<in>set evs. startTimeSeconds st' \<le> chunkStart e))"
      using "1.IH" [OF True refl refl refl refl refl refl]
      unfolding st'_def ev_def ce_def cs_def ce0_def cs0_def chunkSize_def .
    then obtain evs where e:
       "emitted (chunk_loop w tpw (i + 4) st') = emitted st' @ evs \<and>
         assBody (chunk_loop w tpw (i + 4) st') = assBody st' @ concat (map dialogue_line evs) \<and>
         length evs = (length w - (i + 4) + 3) div 4 \<and>
         (\<forall>j<length evs. chunkWords (evs ! j) =
             js_join (js_slice w (i + 4 + 4 * j) (i + 4 + 4 * j + 4)) '' '') \<and>
         (\<forall>e\<in>set evs. chunkEnd e \<le> endTimeSeconds st') \<and>
         (evs \<noteq> [] \<longrightarrow> lastEndTime st' \<le> chunkStart (hd evs)) \<and>
         (\<forall>j. Suc j < length evs \<longrightarrow> chunkEnd (evs ! j) \<le> chunkStart (evs ! Suc j)) \<and>
         (0 \<le> tpw \<longrightarrow> (\<forall>e\<in>set evs. startTimeSeconds st' \<le> chunkStart e))" ..
    note e1 = e [THEN conjunct1]
    note e2 = e [THEN conjunct2, THEN conjunct1]
    note e3 = e [THEN conjunct2, THEN conjunct2, THEN conjunct1]
    note e4 = e [THEN conjunct2, THEN conjunct2, THEN conjunct2, THEN conjunct1]
    note e5 = e [THEN conjunct2, THEN conjunct2, THEN conjunct2, THEN conjunct2, THEN conjunct1]
    note e6 = e [THEN conjunct2, THEN conjunct2, THEN conjunct2, THEN conjunct2, THEN conjunct2,
                 THEN conjunct1]
    note e7 = e [THEN conjunct2, THEN conjunct2, THEN conjunct2, THEN conjunct2, THEN conjunct2,
                 THEN conjunct2, THEN conjunct1]
    note e8 = e [THEN conjunct2, THEN conjunct2, THEN conjunct2, THEN conjunct2, THEN conjunct2,
                 THEN conjunct2, THEN conjunct2]
    have c1: "emitted (chunk_loop w tpw i st) = emitted st @ ev # evs"
      unfolding step e1 by (simp add: st'_def)
    have c2: "assBody (chunk_loop w tpw i st) = assBody st @ concat (map dialogue_line (ev # evs))"
      unfolding step e2 by (simp add: st'_def)
    have c3: "length (ev # evs) = (length w - i + 3) div 4"
      using chunk_count_step [OF True] by (simp add: e3)
    have c4: "\<forall>j<length (ev # evs). chunkWords ((ev # evs) ! j) =
                js_join (js_slice w (i + 4 * j) (i + 4 * j + 4)) '' ''"
    proof (intro allI impI)
      fix j assume j: "j < length (ev # evs)"
      show "chunkWords ((ev # evs) ! j) = js_join (js_slice w (i + 4 * j) (i + 4 * j + 4)) '' ''"
      proof (cases j)
        case 0
        then show ?thesis by (simp add: ev_def)
      next
        case (Suc k)
        with j have "k < length evs" by simp
        with e4 have "chunkWords (evs ! k) =
           js_join (js_slice w (i + 4 + 4 * k) (i + 4 + 4 * k + 4)) '' ''"
          by blast
        then show ?thesis using Suc by (simp add: add.assoc)
      qed
    qed
    have ce_le: "ce \<le> endTimeSeconds st" by (simp add: ce_def)
    have cs_ge: "lastEndTime st \<le> cs" by (simp add: cs_def)
    have c5: "\<forall>e\<in>set (ev # evs). chunkEnd e \<le> endTimeSeconds st"
      using e5 ce_le by (simp add: st'_def ev_def)
    have c6: "ev # evs \<noteq> [] \<longrightarrow> lastEndTime st \<le> chunkStart (hd (ev # evs))"
      using cs_ge by (simp add: ev_def)
    have c7: "\<forall>j. Suc j < length (ev # evs) \<longrightarrow>
                chunkEnd ((ev # evs) ! j) \<le> chunkStart ((ev # evs) ! Suc j)"
    proof (intro allI impI)
      fix j assume j: "Suc j < length (ev # evs)"
      show "chunkEnd ((ev # evs) ! j) \<le> chunkStart ((ev # evs) ! Suc j)"
      proof (cases j)
        case 0
        from j have ne: "evs \<noteq> []" by auto
        with e6 have "ce \<le> chunkStart (hd evs)" by (simp add: st'_def)
        with ne 0 show ?thesis by (simp add: ev_def hd_conv_nth)
      next
        case (Suc k)
        with j e7 show ?thesis by simp
      qed
    qed
    have c8: "0 \<le> tpw \<longrightarrow> (\<forall>e\<in>set (ev # evs). startTimeSeconds st \<le> chunkStart e)"
    proof
      assume t: "0 \<le> tpw"
      then have "0 \<le> real i * tpw" by simp
      then have "startTimeSeconds st \<le> cs0" by (simp add: cs0_def)
      then have "startTimeSeconds st \<le> cs" by (simp add: cs_def)
      with e8 t show "\<forall>e\<in>set (ev # evs). startTimeSeconds st \<le> chunkStart e"
        by (simp add: st'_def ev_def)
    qed
    show ?thesis
      by (rule exI [of _ "ev # evs"]) (intro conjI c1 c2 c3 c4 c5 c6 c7 c8)
  qed
qed

subsection \<open>One flush\<close>

lemma processBlock_empty: "textBuffer st = [] \<Longrightarrow> processBlock st = Inr st"
  by (simp add: processBlock_def)

lemma processBlock_flush:
  assumes "textBuffer st \<noteq> []"
  shows "\<exists>st' evs. processBlock st = Inr st' \<and>
           emitted st' = emitted st @ evs \<and>
           assBody st' = assBody st @ concat (map dialogue_line evs) \<and>
           textBuffer st' = [] \<and> lastEndTime st' = 0 \<and>
           startTimeSeconds st' = startTimeSeconds st \<and>
           endTimeSeconds st' = endTimeSeconds st \<and>
           length evs = (length (js_split (js_trim (textBuffer st)) '' '') + 3) div 4 \<and>
           (\<forall>j<length evs. chunkWords (evs ! j) =
              js_join (js_slice (js_split (js_trim (textBuffer st)) '' '') (4 * j) (4 * j + 4)) '' '') \<and>
           (\<forall>e\<in>set evs. chunkEnd e \<le> endTimeSeconds st) \<and>
           (evs \<noteq> [] \<longrightarrow> lastEndTime st \<le> chunkStart (hd evs)) \<and>
           (\<forall>j. Suc j < length evs \<longrightarrow> chunkEnd (evs ! j) \<le> chunkStart (evs ! Suc j)) \<and>
           (startTimeSeconds st \<le> endTimeSeconds st \<longrightarrow>
              (\<forall>e\<in>set evs. startTimeSeconds st \<le> chunkStart e))"
proof -
  define w where "w = js_split (js_trim (textBuffer st)) '' ''"
  define tpw where "tpw = (endTimeSeconds st - startTimeSeconds st) / real (length w)"
  define st1 where "st1 = chunk_loop w tpw 0 st"
  have ne: "length w \<noteq> 0"
    using js_split_nonempty [of "'' ''" "js_trim (textBuffer st)"] by (simp add: w_def)
  have pb: "processBlock st = Inr (st1\<lparr>textBuffer := [], lastEndTime := 0\<rparr>)"
    using assms ne by (simp add: processBlock_def Let_def w_def tpw_def st1_def)
  from chunk_loop_events [of w tpw 0 st] obtain evs where e:
    "emitted st1 = emitted st @ evs \<and>
     assBody st1 = assBody st @ concat (map dialogue_line evs) \<and>
     length evs = (length w - 0 + 3) div 4 \<and>
     (\<forall>j<length evs. chunkWords (evs ! j) = js_join (js_slice w (0 + 4 * j) (0 + 4 * j + 4)) '' '') \<and>
     (\<forall>e\<in>set evs. chunkEnd e \<le> endTimeSeconds st) \<and>
     (evs \<noteq> [] \<longrightarrow> lastEndTime st \<le> chunkStart (hd evs)) \<and>
     (\<forall>j. Suc j < length evs \<longrightarrow> chunkEnd (evs ! j) \<le> chunkStart (evs ! Suc j)) \<and>
     (0 \<le> tpw \<longrightarrow> (\<forall>e\<in>set evs. startTimeSeconds st \<le> chunkStart e))"
    unfolding st1_def ..
  have tp: "startTimeSeconds st \<le> endTimeSeconds st \<longrightarrow> 0 \<le> tpw"
    by (simp add: tpw_def)
  have win: "startTimeSeconds st1 = startTimeSeconds st" "endTimeSeconds st1 = endTimeSeconds st"
    using chunk_loop_window [of w tpw 0 st] by (simp_all add: st1_def)
  show ?thesis
    apply (rule exI [of _ "st1\<lparr>textBuffer := [], lastEndTime := 0\<rparr>"])
    apply (rule exI [of _ evs])
    using e pb win tp by (simp add: w_def)
qed

lemma processBlock_total: "\<exists>st'. processBlock st = Inr st'"
  using processBlock_empty [of st] processBlock_flush [of st] by (cases "textBuffer st = []") auto

lemma js_slice_nth:
  "js_slice xs a b = map ((!) xs) [a..<min b (length xs)]"
proof (rule nth_equalityI)
  show "length (js_slice xs a b) = length (map ((!) xs) [a..<min b (length xs)])"
    by (auto simp: js_slice_def)
next
  fix i assume "i < length (js_slice xs a b)"
  then have i: "i < b - a" "i < length xs - a" by (simp_all add: js_slice_def)
  then have "a + i < min b (length xs)" by (simp add: less_diff_conv add.commute)
  then have "[a..<min b (length xs)] ! i = a + i" by (rule nth_upt)
  with i show "js_slice xs a b ! i = map ((!) xs) [a..<min b (length xs)] ! i"
    by (simp add: js_slice_def)
qed

lemma ceiling_quarter: "\<lceil>real n / 4\<rceil> = int ((n + 3) div 4)"
proof -
  have "real_of_int (int ((n + 3) div 4)) - 1 < real n / 4"
       "real n / 4 \<le> real_of_int (int ((n + 3) div 4))"
    by (simp_all add: field_simps)
  then show ?thesis by (rule ceiling_unique)
qed


lemma example_block_flush:
  "\<exists>st'. processBlock example_block = Inr st' \<and>
     emitted st' =
       [\<lparr>chunkStart = 1, chunkEnd = 5, chunkWords = ''one two three four''\<rparr>,
        \<lparr>chunkStart = 5, chunkEnd = 9, chunkWords = ''five six seven eight''\<rparr>] \<and>
     js_split (assBody st') ''\<newline>'' =
       [''Dialogue: 0,0:00:01.00,0:00:05.00,TikTokStyle,0,0,0,,{'' @ [CHR 0x5C] @ ''fad(200,200)} one two three four'',
        ''Dialogue: 0,0:00:05.00,0:00:09.00,TikTokStyle,0,0,0,,{'' @ [CHR 0x5C] @ ''fad(200,200)} five six seven eight'',
        []]"
proof -
  obtain st' where p: "processBlock example_block = Inr st'"
    using processBlock_total by blast
  have "(case processBlock example_block of Inl e \<Rightarrow> False | Inr st' \<Rightarrow>
     emitted st' =
       [\<lparr>chunkStart = 1, chunkEnd = 5, chunkWords = ''one two three four''\<rparr>,
        \<lparr>chunkStart = 5, chunkEnd = 9, chunkWords = ''five six seven eight''\<rparr>] \<and>
     js_split (assBody st') ''\<newline>'' =
       [''Dialogue: 0,0:00:01.00,0:00:05.00,TikTokStyle,0,0,0,,{'' @ [CHR 0x5C] @ ''fad(200,200)} one two three four'',
        ''Dialogue: 0,0:00:05.00,0:00:09.00,TikTokStyle,0,0,0,,{'' @ [CHR 0x5C] @ ''fad(200,200)} five six seven eight'',
        []])"
    by code_simp
  with p show ?thesis by simp
qed

text \<open>
  Claim C3. In one flush of a window whose start is not after its end, each emitted event
  ends no later than the next one starts, every event ends no later than the window
  does, and none starts before the window does. \<open>evs\<close> are the events the flush
  appends. The first two hold for every window; the last one needs the order of start
  and end.
\<close>

theorem flush_no_overlap:
  assumes "startTimeSeconds st \<le> endTimeSeconds st"
  shows "\<exists>st' evs. processBlock st = Inr st' \<and> emitted st' = emitted st @ evs \<and>
           (\<forall>i. Suc i < length evs \<longrightarrow> chunkEnd (evs ! i) \<le> chunkStart (evs ! Suc i)) \<and>
           (\<forall>e\<in>set evs. chunkEnd e \<le> endTimeSeconds st) \<and>
           (\<forall>e\<in>set evs. startTimeSeconds st \<le> chunkStart e)"
proof (cases "textBuffer st = []")
  case True
  then have "processBlock st = Inr st \<and> emitted st = emitted st @ []"
    by (simp add: processBlock_empty)
  then show ?thesis by fastforce
next
  case False
  from processBlock_flush [OF False] assms show ?thesis by blast
qed

theorem flush_no_overlap_witness:
  "startTimeSeconds example_block \<le> endTimeSeconds example_block \<and>
   (\<exists>st' evs. processBlock example_block = Inr st' \<and>
      emitted st' = emitted example_block @ evs \<and> length evs = 2 \<and>
      chunkEnd (evs ! 0) \<le> chunkStart (evs ! 1) \<and> chunkEnd (evs ! 1) \<le> 9)"
proof -
  have h: "startTimeSeconds example_block \<le> endTimeSeconds example_block"
    by (simp add: example_block_def)
  from flush_no_overlap [OF h] obtain st' evs where
    p: "processBlock example_block = Inr st'" and
    e: "emitted st' = emitted example_block @ evs" and
    m: "\<forall>i. Suc i < length evs \<longrightarrow> chunkEnd (evs ! i) \<le> chunkStart (evs ! Suc i)" and
    w: "\<forall>e\<in>set evs. chunkEnd e \<le> endTimeSeconds example_block"
    by blast
  from example_block_flush p have
    "emitted st' = [\<lparr>chunkStart = 1, chunkEnd = 5, chunkWords = ''one two three four''\<rparr>,
        \<lparr>chunkStart = 5, chunkEnd = 9, chunkWords = ''five six seven eight''\<rparr>]"
    by auto
  with e have l: "length evs = 2"
    by (auto simp: example_block_def initial_state_def)
  with m have a: "chunkEnd (evs ! 0) \<le> chunkStart (evs ! 1)" by simp
  from l have "evs ! 1 \<in> set evs" by simp
  with w have b: "chunkEnd (evs ! 1) \<le> 9" by (auto simp: example_block_def)
  from h p e l a b show ?thesis by blast
qed













subsection \<open>The line loop never fails\<close>

lemma line_step_total: "\<exists>st'. line_step st line = Inr st'"
proof -
  obtain st1 where p: "processBlock st = Inr st1"
    using processBlock_total by blast
  show ?thesis
  proof (cases "js_includes line ''-->''")
    case True
    then obtain a b r where "js_split line ''-->'' = a # b # r"
      using js_split_two [of "''-->''" line] by auto
    with p show ?thesis by (simp add: line_step_def)
  next
    case False
    with p show ?thesis by (simp add: line_step_def)
  qed
qed

lemma run_lines_total: "\<exists>st'. run_lines st lines = Inr st'"
proof (induction lines arbitrary: st)
  case Nil
  show ?case by simp
next
  case (Cons l ls)
  obtain st1 where "line_step st l = Inr st1"
    using line_step_total by blast
  with Cons [of st1] show ?case by simp
qed

lemma run_lines_snoc:
  "run_lines st (lines @ [l]) =
     (case run_lines st lines of Inl e \<Rightarrow> Inl e | Inr st' \<Rightarrow> line_step st' l)"
proof (induction lines arbitrary: st)
  case Nil
  show ?case by (simp split: sum.splits)
next
  case (Cons x xs)
  show ?case by (simp add: Cons split: sum.splits)
qed

lemma compile_lines_total: "\<exists>st. compile_lines lines = Inr st"
proof -
  obtain st where "run_lines initial_state lines = Inr st"
    using run_lines_total by blast
  then show ?thesis
    using processBlock_total [of st] by (simp add: compile_lines_def)
qed

lemma processBlock_lastEndTime:
  assumes "processBlock st = Inr st'" "lastEndTime st = 0"
  shows "lastEndTime st' = 0"
proof (cases "textBuffer st = []")
  case True
  with assms show ?thesis by (simp add: processBlock_empty)
next
  case False
  from processBlock_flush [OF False] assms(1) show ?thesis by auto
qed

lemma line_step_lastEndTime:
  assumes "line_step st line = Inr st'" "lastEndTime st = 0"
  shows "lastEndTime st' = 0"
proof -
  obtain st1 where p: "processBlock st = Inr st1"
    using processBlock_total by blast
  then have z: "lastEndTime st1 = 0"
    using assms(2) by (rule processBlock_lastEndTime)
  from assms p z show ?thesis
    by (auto simp: line_step_def split: if_splits list.splits)
qed

lemma run_lines_lastEndTime:
  "run_lines st lines = Inr st' \<Longrightarrow> lastEndTime st = 0 \<Longrightarrow> lastEndTime st' = 0"
proof (induction lines arbitrary: st)
  case Nil
  then show ?case by simp
next
  case (Cons l ls)
  obtain st1 where s: "line_step st l = Inr st1"
    using line_step_total by blast
  then have "lastEndTime st1 = 0"
    using Cons.prems(2) by (rule line_step_lastEndTime)
  with Cons.IH [of st1] Cons.prems(1) s show ?case by simp
qed

text \<open>
  Claim C10. For every input text the compiler returns an output document, the style
  header followed by the events, and no error: every line, in every state, is handled by
  one of the four branches of the line loop without error (the second element of
  \<open>times\<close> exists on a timing line), every flush returns, and the divisor of the
  per-word time, the number of words, is at least one.
\<close>

theorem compiler_total:
  "(\<exists>st. compile_lines (js_split data ''\<newline>'') = Inr st \<and>
         convertSrtToAss data = Inr (assHeader @ ''\<newline>'' @ assBody st)) \<and>
   (\<exists>st'. line_step st line = Inr st') \<and>
   (\<exists>st'. processBlock st = Inr st') \<and>
   1 \<le> length (js_split (js_trim (textBuffer st)) '' '')"
proof (intro conjI)
  obtain st0 where "compile_lines (js_split data ''\<newline>'') = Inr st0"
    using compile_lines_total by blast
  then show "\<exists>st. compile_lines (js_split data ''\<newline>'') = Inr st \<and>
         convertSrtToAss data = Inr (assHeader @ ''\<newline>'' @ assBody st)"
    by (simp add: convertSrtToAss_def)
next
  show "\<exists>st'. line_step st line = Inr st'" by (rule line_step_total)
next
  show "\<exists>st'. processBlock st = Inr st'" by (rule processBlock_total)
next
  show "1 \<le> length (js_split (js_trim (textBuffer st)) '' '')"
    using js_split_nonempty [of "'' ''" "js_trim (textBuffer st)"]
    by (simp add: Suc_le_eq)
qed

theorem compiler_total_witness:
  "convertSrtToAss [] = Inr (assHeader @ ''\<newline>'') \<and>
   (\<exists>st'. line_step example_block ''00:00:02,000 --> 00:00:02,000'' = Inr st') \<and>
   (\<exists>st'. processBlock example_block = Inr st') \<and>
   1 \<le> length (js_split (js_trim (textBuffer example_block)) '' '')"
proof -
  note T = compiler_total [of "[]" example_block "''00:00:02,000 --> 00:00:02,000''"]
  have e: "compile_lines (js_split [] ''\<newline>'') = Inr initial_state"
    by (simp add: compile_lines_def js_split_def line_step_def all_digits_def js_trim_def
          processBlock_def initial_state_def)
  from T obtain st where
    "compile_lines (js_split [] ''\<newline>'') = Inr st"
    "convertSrtToAss [] = Inr (assHeader @ ''\<newline>'' @ assBody st)"
    by blast
  with e have "convertSrtToAss [] = Inr (assHeader @ ''\<newline>'')"
    by (simp add: initial_state_def)
  with T show ?thesis by blast
qed

subsection \<open>Flushes are independent of each other\<close>

lemma chunk_loop_same_events:
  "startTimeSeconds st2 = startTimeSeconds st1 \<Longrightarrow>
   endTimeSeconds st2 = endTimeSeconds st1 \<Longrightarrow>
   lastEndTime st2 = lastEndTime st1 \<Longrightarrow>
   \<exists>evs. emitted (chunk_loop w tpw i st1) = emitted st1 @ evs \<and>
         emitted (chunk_loop w tpw i st2) = emitted st2 @ evs \<and>
         assBody (chunk_loop w tpw i st1) = assBody st1 @ concat (map dialogue_line evs) \<and>
         assBody (chunk_loop w tpw i st2) = assBody st2 @ concat (map dialogue_line evs)"
proof (induction w tpw i st1 arbitrary: st2 rule: chunk_loop.induct)
  case (1 w tpw i st1)
  show ?case
  proof (cases "i < length w")
    case False
    then show ?thesis by (subst (1 2 3 4) chunk_loop.simps) simp
  next
    case True
    define cs0 where "cs0 = startTimeSeconds st1 + real i * tpw"
    define ce0 where "ce0 = startTimeSeconds st1 + real (min (i + 4) (length w)) * tpw"
    define cs where "cs = (if cs0 < lastEndTime st1 then lastEndTime st1 else cs0)"
    define ce where "ce = (if ce0 > endTimeSeconds st1 then endTimeSeconds st1 else ce0)"
    define ev where "ev = \<lparr>chunkStart = cs, chunkEnd = ce,
                           chunkWords = js_join (js_slice w i (i + 4)) '' ''\<rparr>"
    define st1' where "st1' = st1\<lparr>assBody := assBody st1 @ dialogue_line ev, lastEndTime := ce,
                               emitted := emitted st1 @ [ev]\<rparr>"
    define st2' where "st2' = st2\<lparr>assBody := assBody st2 @ dialogue_line ev, lastEndTime := ce,
                               emitted := emitted st2 @ [ev]\<rparr>"
    have step1: "chunk_loop w tpw i st1 = chunk_loop w tpw (i + 4) st1'"
      using True
      by (subst chunk_loop.simps)
         (simp add: Let_def st1'_def ev_def ce_def cs_def ce0_def cs0_def chunkSize_def)
    have step2: "chunk_loop w tpw i st2 = chunk_loop w tpw (i + 4) st2'"
      using True "1.prems"
      by (subst chunk_loop.simps)
         (simp add: Let_def st2'_def ev_def ce_def cs_def ce0_def cs0_def chunkSize_def)
    have agree: "startTimeSeconds st2' = startTimeSeconds st1'"
        "endTimeSeconds st2' = endTimeSeconds st1'" "lastEndTime st2' = lastEndTime st1'"
      using "1.prems" by (simp_all add: st1'_def st2'_def)
    have "\<exists>evs. emitted (chunk_loop w tpw (i + 4) st1') = emitted st1' @ evs \<and>
         emitted (chunk_loop w tpw (i + 4) st2') = emitted st2' @ evs \<and>
         assBody (chunk_loop w tpw (i + 4) st1') = assBody st1' @ concat (map dialogue_line evs) \<and>
         assBody (chunk_loop w tpw (i + 4) st2') = assBody st2' @ concat (map dialogue_line evs)"
      using "1.IH" [OF True refl refl refl refl refl refl, of st2'] agree
      unfolding st1'_def ev_def ce_def cs_def ce0_def cs0_def chunkSize_def .
    then obtain evs where e:
      "emitted (chunk_loop w tpw (i + 4) st1') = emitted st1' @ evs \<and>
         emitted (chunk_loop w tpw (i + 4) st2') = emitted st2' @ evs \<and>
         assBody (chunk_loop w tpw (i + 4) st1') = assBody st1' @ concat (map dialogue_line evs) \<and>
         assBody (chunk_loop w tpw (i + 4) st2') = assBody st2' @ concat (map dialogue_line evs)" ..
    note e1 = e [THEN conjunct1]
    note e2 = e [THEN conjunct2, THEN conjunct1]
    note e3 = e [THEN conjunct2, THEN conjunct2, THEN conjunct1]
    note e4 = e [THEN conjunct2, THEN conjunct2, THEN conjunct2]
    have c1: "emitted (chunk_loop w tpw i st1) = emitted st1 @ ev # evs"
      unfolding step1 e1 by (simp add: st1'_def)
    have c2: "emitted (chunk_loop w tpw i st2) = emitted st2 @ ev # evs"
      unfolding step2 e2 by (simp add: st2'_def)
    have c3: "assBody (chunk_loop w tpw i st1) = assBody st1 @ concat (map dialogue_line (ev # evs))"
      unfolding step1 e3 by (simp add: st1'_def)
    have c4: "assBody (chunk_loop w tpw i st2) = assBody st2 @ concat (map dialogue_line (ev # evs))"
      unfolding step2 e4 by (simp add: st2'_def)
    show ?thesis
      by (rule exI [of _ "ev # evs"]) (intro conjI c1 c2 c3 c4)
  qed
qed

lemma processBlock_same_events:
  assumes "startTimeSeconds st2 = startTimeSeconds st1" "endTimeSeconds st2 = endTimeSeconds st1"
    and "lastEndTime st2 = lastEndTime st1" "textBuffer st2 = textBuffer st1"
  shows "\<exists>st1' st2' evs. processBlock st1 = Inr st1' \<and> processBlock st2 = Inr st2' \<and>
           emitted st1' = emitted st1 @ evs \<and> emitted st2' = emitted st2 @ evs \<and>
           assBody st1' = assBody st1 @ concat (map dialogue_line evs) \<and>
           assBody st2' = assBody st2 @ concat (map dialogue_line evs)"
proof (cases "textBuffer st1 = []")
  case True
  with assms(4) have "processBlock st1 = Inr st1" "processBlock st2 = Inr st2"
    by (simp_all add: processBlock_empty)
  then show ?thesis
    by (intro exI [of _ st1] exI [of _ st2] exI [of _ "[]"]) simp
next
  case False
  define w where "w = js_split (js_trim (textBuffer st1)) '' ''"
  define tpw where "tpw = (endTimeSeconds st1 - startTimeSeconds st1) / real (length w)"
  have ne: "length w \<noteq> 0"
    using js_split_nonempty [of "'' ''" "js_trim (textBuffer st1)"] by (simp add: w_def)
  have p1: "processBlock st1 = Inr ((chunk_loop w tpw 0 st1)\<lparr>textBuffer := [], lastEndTime := 0\<rparr>)"
    using False ne by (simp add: processBlock_def Let_def w_def tpw_def)
  have p2: "processBlock st2 = Inr ((chunk_loop w tpw 0 st2)\<lparr>textBuffer := [], lastEndTime := 0\<rparr>)"
    using False ne assms by (simp add: processBlock_def Let_def w_def tpw_def)
  from chunk_loop_same_events [OF assms(1-3), of w tpw 0] obtain evs where
    "emitted (chunk_loop w tpw 0 st1) = emitted st1 @ evs \<and>
     emitted (chunk_loop w tpw 0 st2) = emitted st2 @ evs \<and>
     assBody (chunk_loop w tpw 0 st1) = assBody st1 @ concat (map dialogue_line evs) \<and>
     assBody (chunk_loop w tpw 0 st2) = assBody st2 @ concat (map dialogue_line evs)" ..
  with p1 p2 show ?thesis
    by (intro exI [of _ "(chunk_loop w tpw 0 st1)\<lparr>textBuffer := [], lastEndTime := 0\<rparr>"]
              exI [of _ "(chunk_loop w tpw 0 st2)\<lparr>textBuffer := [], lastEndTime := 0\<rparr>"]
              exI [of _ evs]) simp
qed


lemma overlap_example:
  "\<exists>st a b. compile_lines (js_split
       ''00:00:05,000 --> 00:00:10,000\<newline>a\<newline>\<newline>00:00:01,000 --> 00:00:08,000\<newline>b'' ''\<newline>'') = Inr st \<and>
     emitted st = [a, b] \<and> chunkStart b < chunkEnd a"
proof -
  obtain st where p: "compile_lines (js_split
       ''00:00:05,000 --> 00:00:10,000\<newline>a\<newline>\<newline>00:00:01,000 --> 00:00:08,000\<newline>b'' ''\<newline>'') = Inr st"
    using compile_lines_total by blast
  have "(case compile_lines (js_split
       ''00:00:05,000 --> 00:00:10,000\<newline>a\<newline>\<newline>00:00:01,000 --> 00:00:08,000\<newline>b'' ''\<newline>'')
     of Inl e \<Rightarrow> False
      | Inr st \<Rightarrow> emitted st = [\<lparr>chunkStart = 5, chunkEnd = 10, chunkWords = ''a''\<rparr>,
                                \<lparr>chunkStart = 1, chunkEnd = 8, chunkWords = ''b''\<rparr>])"
    by code_simp
  with p have "emitted st = [\<lparr>chunkStart = 5, chunkEnd = 10, chunkWords = ''a''\<rparr>,
                                \<lparr>chunkStart = 1, chunkEnd = 8, chunkWords = ''b''\<rparr>]"
    by simp
  with p show ?thesis
    by (intro exI [of _ st] exI [of _ "\<lparr>chunkStart = 5, chunkEnd = 10, chunkWords = ''a''\<rparr>"]
              exI [of _ "\<lparr>chunkStart = 1, chunkEnd = 8, chunkWords = ''b''\<rparr>"]) simp
qed

lemma flush_of_reachable:
  assumes "run_lines initial_state lines = Inr st"
  shows "lastEndTime st = 0 \<and>
     (\<exists>st' st0 evs. processBlock st = Inr st' \<and>
        processBlock (initial_state\<lparr>startTimeSeconds := startTimeSeconds st,
                                    endTimeSeconds := endTimeSeconds st,
                                    textBuffer := textBuffer st\<rparr>) = Inr st0 \<and>
        emitted st' = emitted st @ evs \<and> emitted st0 = evs \<and>
        assBody st' = assBody st @ assBody st0)"
proof -
  have z: "lastEndTime st = 0"
    using assms by (rule run_lines_lastEndTime) (simp add: initial_state_def)
  define fresh where "fresh = initial_state\<lparr>startTimeSeconds := startTimeSeconds st,
                                    endTimeSeconds := endTimeSeconds st,
                                    textBuffer := textBuffer st\<rparr>"
  have a: "startTimeSeconds fresh = startTimeSeconds st" "endTimeSeconds fresh = endTimeSeconds st"
       "lastEndTime fresh = lastEndTime st" "textBuffer fresh = textBuffer st"
    by (simp_all add: fresh_def initial_state_def z)
  have f: "emitted fresh = []" "assBody fresh = []"
    by (simp_all add: fresh_def initial_state_def)
  from processBlock_same_events [OF a] obtain st' st0 evs where
    "processBlock st = Inr st'" "processBlock fresh = Inr st0"
    "emitted st' = emitted st @ evs" "emitted st0 = emitted fresh @ evs"
    "assBody st' = assBody st @ concat (map dialogue_line evs)"
    "assBody st0 = assBody fresh @ concat (map dialogue_line evs)"
    by blast
  then have "processBlock st = Inr st' \<and> processBlock fresh = Inr st0 \<and>
        emitted st' = emitted st @ evs \<and> emitted st0 = evs \<and>
        assBody st' = assBody st @ assBody st0"
    by (simp add: f)
  then show ?thesis
    unfolding fresh_def using z by blast
qed

text \<open>
  Claim C7. Whatever lines were processed before, \<open>lastEndTime\<close> is zero when a flush
  starts, and the events the flush appends are those that a flush of a fresh state with
  the same window and the same accumulated text emits: they do not depend on the events
  of earlier windows. An overlap across windows is possible: in the two-block document
  of the second part the event of the later window starts before the event of the
  earlier window ends.
\<close>

theorem flush_starts_from_zero:
  "(\<exists>st. run_lines initial_state lines = Inr st \<and> lastEndTime st = 0 \<and>
     (\<exists>st' st0 evs. processBlock st = Inr st' \<and>
        processBlock (initial_state\<lparr>startTimeSeconds := startTimeSeconds st,
                                    endTimeSeconds := endTimeSeconds st,
                                    textBuffer := textBuffer st\<rparr>) = Inr st0 \<and>
        emitted st' = emitted st @ evs \<and> emitted st0 = evs \<and>
        assBody st' = assBody st @ assBody st0)) \<and>
   (\<exists>st a b. compile_lines (js_split
       ''00:00:05,000 --> 00:00:10,000\<newline>a\<newline>\<newline>00:00:01,000 --> 00:00:08,000\<newline>b'' ''\<newline>'') = Inr st \<and>
     emitted st = [a, b] \<and> chunkStart b < chunkEnd a)"
proof -
  obtain st where r: "run_lines initial_state lines = Inr st"
    using run_lines_total by blast
  from flush_of_reachable [OF r] r overlap_example show ?thesis by blast
qed

lemma run_lines_append:
  "run_lines st (xs @ ys) =
     (case run_lines st xs of Inl e \<Rightarrow> Inl e | Inr st' \<Rightarrow> run_lines st' ys)"
proof (induction xs arbitrary: st)
  case Nil
  show ?case by simp
next
  case (Cons x xs)
  show ?case by (simp add: Cons split: sum.splits)
qed

lemma processBlock_window:
  assumes "processBlock st = Inr st'"
  shows "startTimeSeconds st' = startTimeSeconds st \<and> endTimeSeconds st' = endTimeSeconds st"
proof (cases "textBuffer st = []")
  case True
  with assms show ?thesis by (simp add: processBlock_empty)
next
  case False
  from processBlock_flush [OF False] assms show ?thesis by auto
qed

lemma line_step_window:
  assumes "line_step st line = Inr st'" "all_digits line \<or> \<not> js_includes line ''-->''"
  shows "startTimeSeconds st' = startTimeSeconds st \<and> endTimeSeconds st' = endTimeSeconds st"
proof -
  obtain st1 where p: "processBlock st = Inr st1"
    using processBlock_total by blast
  note w = processBlock_window [OF p]
  from assms p w show ?thesis
    by (auto simp: line_step_def split: if_splits)
qed

lemma run_lines_window:
  "run_lines st lines = Inr st' \<Longrightarrow>
   \<forall>x\<in>set lines. all_digits x \<or> \<not> js_includes x ''-->'' \<Longrightarrow>
   startTimeSeconds st' = startTimeSeconds st \<and> endTimeSeconds st' = endTimeSeconds st"
proof (induction lines arbitrary: st)
  case Nil
  then show ?case by simp
next
  case (Cons l ls)
  obtain st1 where s: "line_step st l = Inr st1"
    using line_step_total by blast
  from Cons.prems(2) have a: "all_digits l \<or> \<not> js_includes l ''-->''"
    and b: "\<forall>x\<in>set ls. all_digits x \<or> \<not> js_includes x ''-->''"
    by simp_all
  from Cons.prems(1) s have "run_lines st1 ls = Inr st'" by simp
  from Cons.IH [OF this b] line_step_window [OF s a] show ?case by simp
qed

lemma line_step_timing:
  assumes "line_step st line = Inr st'" "\<not> all_digits line" "js_includes line ''-->''"
  shows "startTimeSeconds st' = timeStringToSeconds (js_trim (js_split line ''-->'' ! 0)) \<and>
         endTimeSeconds st' = timeStringToSeconds (js_trim (js_split line ''-->'' ! 1))"
proof -
  obtain st1 where p: "processBlock st = Inr st1"
    using processBlock_total by blast
  obtain a b r where t: "js_split line ''-->'' = a # b # r"
    using js_split_two [of "''-->''" line] assms(3) by auto
  from assms p t show ?thesis
    by (auto simp: line_step_def)
qed

lemma window_of_last_timing:
  assumes "run_lines st0 (pre @ tline # post) = Inr st"
    and "\<not> all_digits tline" "js_includes tline ''-->''"
    and "\<forall>x\<in>set post. all_digits x \<or> \<not> js_includes x ''-->''"
  shows "startTimeSeconds st = timeStringToSeconds (js_trim (js_split tline ''-->'' ! 0)) \<and>
         endTimeSeconds st = timeStringToSeconds (js_trim (js_split tline ''-->'' ! 1))"
proof -
  obtain st1 where a: "run_lines st0 pre = Inr st1"
    using run_lines_total by blast
  obtain st2 where b: "line_step st1 tline = Inr st2"
    using line_step_total by blast
  from assms(1) a b have c: "run_lines st2 post = Inr st"
    by (simp add: run_lines_append)
  from run_lines_window [OF c assms(4)] line_step_timing [OF b assms(2,3)]
  show ?thesis by simp
qed

text \<open>
  Claim C9. When the document ends on a content line, the flush after the line loop
  processes the accumulated block: it emits at least one event, the events are those of
  a flush of the accumulated text (the earlier text of the block, then the trimmed last
  line) under the window of the state, which is the window parsed from the last timing
  line of the document; they carry the words of that text in chunks, their lines are in
  the document written, and nothing stays in the accumulator.
\<close>

theorem final_block_flushed:
  assumes "js_split data ''\<newline>'' = lines @ [l]"
    and "\<not> all_digits l" "\<not> js_includes l ''-->''" "js_trim l \<noteq> []"
  shows "\<exists>st st1 st2 st0 evs.
           run_lines initial_state lines = Inr st \<and>
           run_lines initial_state (lines @ [l]) = Inr st1 \<and>
           textBuffer st1 = textBuffer st @ js_trim l @ '' '' \<and>
           startTimeSeconds st1 = startTimeSeconds st \<and>
           endTimeSeconds st1 = endTimeSeconds st \<and>
           (\<forall>pre tline post.
              lines = pre @ tline # post \<and> \<not> all_digits tline \<and> js_includes tline ''-->'' \<and>
              (\<forall>x\<in>set post. all_digits x \<or> \<not> js_includes x ''-->'') \<longrightarrow>
              startTimeSeconds st = timeStringToSeconds (js_trim (js_split tline ''-->'' ! 0)) \<and>
              endTimeSeconds st = timeStringToSeconds (js_trim (js_split tline ''-->'' ! 1))) \<and>
           compile_lines (js_split data ''\<newline>'') = Inr st2 \<and>
           convertSrtToAss data = Inr (assHeader @ ''\<newline>'' @ assBody st2) \<and>
           emitted st2 = emitted st1 @ evs \<and> evs \<noteq> [] \<and>
           assBody st2 = assBody st1 @ concat (map dialogue_line evs) \<and>
           textBuffer st2 = [] \<and>
           processBlock (initial_state\<lparr>startTimeSeconds := startTimeSeconds st,
                                       endTimeSeconds := endTimeSeconds st,
                                       textBuffer := textBuffer st1\<rparr>) = Inr st0 \<and>
           emitted st0 = evs \<and>
           (let words = js_split (js_trim (textBuffer st1)) '' ''
            in int (length evs) = \<lceil>real (length words) / real chunkSize\<rceil> \<and>
               (\<forall>i<length evs. chunkWords (evs ! i) =
                  js_join (map ((!) words)
                    [i * chunkSize..<min ((i + 1) * chunkSize) (length words)]) '' ''))"
proof -
  obtain st where r: "run_lines initial_state lines = Inr st"
    using run_lines_total by blast
  define st1 where "st1 = st\<lparr>textBuffer := textBuffer st @ js_trim l @ '' ''\<rparr>"
  have r1: "run_lines initial_state (lines @ [l]) = Inr st1"
    using assms(2-4) by (simp add: run_lines_snoc r line_step_def st1_def)
  have b: "textBuffer st1 = textBuffer st @ js_trim l @ '' ''"
       "startTimeSeconds st1 = startTimeSeconds st" "endTimeSeconds st1 = endTimeSeconds st"
    by (simp_all add: st1_def)
  have lw: "\<forall>pre tline post.
              lines = pre @ tline # post \<and> \<not> all_digits tline \<and> js_includes tline ''-->'' \<and>
              (\<forall>x\<in>set post. all_digits x \<or> \<not> js_includes x ''-->'') \<longrightarrow>
              startTimeSeconds st = timeStringToSeconds (js_trim (js_split tline ''-->'' ! 0)) \<and>
              endTimeSeconds st = timeStringToSeconds (js_trim (js_split tline ''-->'' ! 1))"
  proof (intro allI impI, elim conjE)
    fix pre tline post
    assume l: "lines = pre @ tline # post" and t: "\<not> all_digits tline" "js_includes tline ''-->''"
      and n: "\<forall>x\<in>set post. all_digits x \<or> \<not> js_includes x ''-->''"
    from r l have "run_lines initial_state (pre @ tline # post) = Inr st" by simp
    from window_of_last_timing [OF this t n]
    show "startTimeSeconds st = timeStringToSeconds (js_trim (js_split tline ''-->'' ! 0)) \<and>
          endTimeSeconds st = timeStringToSeconds (js_trim (js_split tline ''-->'' ! 1))" .
  qed
  have ne: "textBuffer st1 \<noteq> []" by (simp add: st1_def)
  define words where "words = js_split (js_trim (textBuffer st1)) '' ''"
  from processBlock_flush [OF ne] obtain st2 evs where
    p: "processBlock st1 = Inr st2" and
    e: "emitted st2 = emitted st1 @ evs" and
    ab: "assBody st2 = assBody st1 @ concat (map dialogue_line evs)" and
    tb: "textBuffer st2 = []" and
    n: "length evs = (length words + 3) div 4" and
    c: "\<forall>j<length evs. chunkWords (evs ! j) = js_join (js_slice words (4 * j) (4 * j + 4)) '' ''"
    unfolding words_def by blast
  have w: "1 \<le> length words"
    using js_split_nonempty [of "'' ''" "js_trim (textBuffer st1)"]
    by (simp add: Suc_le_eq words_def)
  then have "1 \<le> length evs" unfolding n by simp
  then have evne: "evs \<noteq> []" by auto
  have cl: "compile_lines (js_split data ''\<newline>'') = Inr st2"
    by (simp add: compile_lines_def assms(1) r1 p)
  then have cv: "convertSrtToAss data = Inr (assHeader @ ''\<newline>'' @ assBody st2)"
    by (simp add: convertSrtToAss_def)
  from flush_of_reachable [OF r1] p obtain st0 where
    f: "processBlock (initial_state\<lparr>startTimeSeconds := startTimeSeconds st1,
                                    endTimeSeconds := endTimeSeconds st1,
                                    textBuffer := textBuffer st1\<rparr>) = Inr st0"
       "emitted st0 = evs"
    using e by auto
  have f': "processBlock (initial_state\<lparr>startTimeSeconds := startTimeSeconds st,
                                    endTimeSeconds := endTimeSeconds st,
                                    textBuffer := textBuffer st1\<rparr>) = Inr st0"
    using f(1) by (simp only: b)
  have c': "\<forall>i<length evs. chunkWords (evs ! i) =
                  js_join (map ((!) words) [i * 4..<min ((i + 1) * 4) (length words)]) '' ''"
    using c by (simp add: js_slice_nth mult.commute add.commute)
  have k: "let words = js_split (js_trim (textBuffer st1)) '' ''
            in int (length evs) = \<lceil>real (length words) / real chunkSize\<rceil> \<and>
               (\<forall>i<length evs. chunkWords (evs ! i) =
                  js_join (map ((!) words)
                    [i * chunkSize..<min ((i + 1) * chunkSize) (length words)]) '' '')"
    using c' unfolding Let_def words_def [symmetric]
    by (simp add: chunkSize_def n ceiling_quarter)
  show ?thesis
    apply (rule exI [of _ st])
    apply (rule exI [of _ st1])
    apply (rule exI [of _ st2])
    apply (rule exI [of _ st0])
    apply (rule exI [of _ evs])
    apply (intro conjI r r1 b lw cl cv e evne ab tb f' f(2) k)
    done
qed


theorem flush_starts_from_zero_witness:
  "\<exists>st. run_lines initial_state
          [''00:00:01,000 --> 00:00:09,000'', ''one two three four five six seven eight'']
        = Inr st \<and> lastEndTime st = 0 \<and>
     (\<exists>st' evs. processBlock st = Inr st' \<and> emitted st' = emitted st @ evs)"
  using flush_starts_from_zero
    [of "[''00:00:01,000 --> 00:00:09,000'', ''one two three four five six seven eight'']"]
  by blast

theorem final_block_flushed_witness:
  "js_split ''00:00:01,000 --> 00:00:09,000\<newline>one two three four five six seven eight'' ''\<newline>''
     = [''00:00:01,000 --> 00:00:09,000''] @ [''one two three four five six seven eight''] \<and>
   \<not> all_digits ''one two three four five six seven eight'' \<and>
   \<not> js_includes ''one two three four five six seven eight'' ''-->'' \<and>
   js_trim ''one two three four five six seven eight'' \<noteq> [] \<and>
   (\<exists>st2. compile_lines (js_split
        ''00:00:01,000 --> 00:00:09,000\<newline>one two three four five six seven eight'' ''\<newline>'')
        = Inr st2 \<and>
      convertSrtToAss ''00:00:01,000 --> 00:00:09,000\<newline>one two three four five six seven eight''
        = Inr (assHeader @ ''\<newline>'' @ assBody st2) \<and>
      emitted st2 \<noteq> [] \<and> textBuffer st2 = [])"
proof -
  have h1: "js_split ''00:00:01,000 --> 00:00:09,000\<newline>one two three four five six seven eight'' ''\<newline>''
     = [''00:00:01,000 --> 00:00:09,000''] @ [''one two three four five six seven eight'']"
    by code_simp
  have h2: "\<not> all_digits ''one two three four five six seven eight''"
    by code_simp
  have h3: "\<not> js_includes ''one two three four five six seven eight'' ''-->''"
    by code_simp
  have h4: "js_trim ''one two three four five six seven eight'' \<noteq> []"
    by code_simp
  from final_block_flushed [OF h1 h2 h3 h4]
  have "\<exists>st2. compile_lines (js_split
        ''00:00:01,000 --> 00:00:09,000\<newline>one two three four five six seven eight'' ''\<newline>'')
        = Inr st2 \<and>
      convertSrtToAss ''00:00:01,000 --> 00:00:09,000\<newline>one two three four five six seven eight''
        = Inr (assHeader @ ''\<newline>'' @ assBody st2) \<and>
      emitted st2 \<noteq> [] \<and> textBuffer st2 = []"
  proof (elim exE conjE)
    fix st1 st2 :: compiler_state and evs :: "dialogue list"
    assume a: "compile_lines (js_split
        ''00:00:01,000 --> 00:00:09,000\<newline>one two three four five six seven eight'' ''\<newline>'')
        = Inr st2"
      and b: "convertSrtToAss ''00:00:01,000 --> 00:00:09,000\<newline>one two three four five six seven eight''
        = Inr (assHeader @ ''\<newline>'' @ assBody st2)"
      and c: "emitted st2 = emitted st1 @ evs" and d: "evs \<noteq> []" and t: "textBuffer st2 = []"
    from c d have n: "emitted st2 \<noteq> []" by simp
    show ?thesis
      by (rule exI [of _ st2]) (intro conjI a b n t)
  qed
  with h1 h2 h3 h4 show ?thesis by (intro conjI)
qed

subsection \<open>Parsing a transcript time\<close>

lemma not_digit_separators: "\<not> is_digit (CHR '':'')" "\<not> is_digit (CHR '','')"
  by (simp_all add: is_digit_def)

lemma all_digits_takeWhile: "takeWhile is_digit s \<noteq> [] \<Longrightarrow> all_digits (takeWhile is_digit s)"
  by (auto simp: all_digits_def list_all_iff dest: set_takeWhileD)

lemma takeWhile_digits_append:
  "all_digits d \<Longrightarrow> \<not> is_digit c \<Longrightarrow> takeWhile is_digit (d @ c # r) = d"
  by (simp add: all_digits_def list_all_iff takeWhile_append2)

lemma dropWhile_digits_append:
  "all_digits d \<Longrightarrow> \<not> is_digit c \<Longrightarrow> dropWhile is_digit (d @ c # r) = c # r"
  by (simp add: all_digits_def list_all_iff dropWhile_append2)

lemma digits_then_Some:
  assumes "digits_then c s = Some (d, r)"
  shows "s = d @ c # r \<and> all_digits d"
proof -
  from assms obtain x where
    d: "dropWhile is_digit s = x # r" and t: "takeWhile is_digit s \<noteq> []"
    and x: "x = c" and e: "d = takeWhile is_digit s"
    by (auto simp: digits_then_def split: list.splits if_splits)
  have "s = takeWhile is_digit s @ dropWhile is_digit s" by simp
  with d x e have "s = d @ c # r" by simp
  moreover have "all_digits d" using t e by (simp add: all_digits_takeWhile)
  ultimately show ?thesis by simp
qed

lemma digits_then_append:
  assumes "all_digits d" "\<not> is_digit c"
  shows "digits_then c (d @ c # r) = Some (d, r)"
  using assms
  by (simp add: digits_then_def takeWhile_digits_append dropWhile_digits_append all_digits_def)

lemma match_here_Some:
  assumes "match_here s = Some (g1, g2, g3, g4)"
  shows "\<exists>post. s = g1 @ '':'' @ g2 @ '':'' @ g3 @ '','' @ g4 @ post \<and>
           all_digits g1 \<and> all_digits g2 \<and> all_digits g3 \<and> all_digits g4"
proof -
  from assms obtain r1 r2 r3 where
    a: "digits_then (CHR '':'') s = Some (g1, r1)" and
    b: "digits_then (CHR '':'') r1 = Some (g2, r2)" and
    c: "digits_then (CHR '','') r2 = Some (g3, r3)" and
    d: "takeWhile is_digit r3 \<noteq> []" and e: "g4 = takeWhile is_digit r3"
    by (auto simp: match_here_def split: option.splits if_splits)
  from digits_then_Some [OF a] digits_then_Some [OF b] digits_then_Some [OF c]
  have s: "s = g1 @ CHR '':'' # g2 @ CHR '':'' # g3 @ CHR '','' # r3"
    and g: "all_digits g1" "all_digits g2" "all_digits g3"
    by simp_all
  have "r3 = g4 @ dropWhile is_digit r3" by (simp add: e)
  with s have "s = g1 @ '':'' @ g2 @ '':'' @ g3 @ '','' @ g4 @ dropWhile is_digit r3"
    by simp
  moreover have "all_digits g4" using d e by (simp add: all_digits_takeWhile)
  ultimately show ?thesis using g by blast
qed

lemma match_here_at:
  assumes "all_digits g1" "all_digits g2" "all_digits g3" "all_digits g4"
  shows "match_here (g1 @ '':'' @ g2 @ '':'' @ g3 @ '','' @ g4 @ post) =
           Some (g1, g2, g3, takeWhile is_digit (g4 @ post))"
proof -
  have ne: "takeWhile is_digit (g4 @ post) \<noteq> []"
    using assms(4) by (cases g4) (auto simp: all_digits_def)
  show ?thesis
    using assms(1-3) ne
    by (simp add: match_here_def digits_then_append not_digit_separators)
qed

lemma match_here_exact:
  assumes "all_digits g1" "all_digits g2" "all_digits g3" "all_digits g4"
  shows "match_here (g1 @ '':'' @ g2 @ '':'' @ g3 @ '','' @ g4) = Some (g1, g2, g3, g4)"
proof -
  have "takeWhile is_digit g4 = g4"
    using assms(4) by (simp add: all_digits_def list_all_iff)
  with match_here_at [OF assms, of "[]"] show ?thesis by simp
qed

lemma regex_match_first: "match_here s = Some g \<Longrightarrow> regex_match s = Some g"
  by (cases s) simp_all

lemma regex_match_Some:
  "regex_match s = Some g \<Longrightarrow> \<exists>pre t. s = pre @ t \<and> match_here t = Some g"
proof (induction s)
  case Nil
  then show ?case by simp
next
  case (Cons c cs)
  show ?case
  proof (cases "match_here (c # cs)")
    case (Some g')
    with Cons.prems have "match_here (c # cs) = Some g" by simp
    then have "c # cs = [] @ c # cs \<and> match_here (c # cs) = Some g" by simp
    then show ?thesis by blast
  next
    case None
    with Cons.prems have "regex_match cs = Some g" by simp
    with Cons.IH obtain pre t where "cs = pre @ t" "match_here t = Some g" by blast
    then have "c # cs = (c # pre) @ t \<and> match_here t = Some g" by simp
    then show ?thesis by blast
  qed
qed

lemma regex_match_complete:
  "match_here t \<noteq> None \<Longrightarrow> regex_match (pre @ t) \<noteq> None"
proof (induction pre)
  case Nil
  then obtain g where "match_here t = Some g" by auto
  then show ?case by (simp add: regex_match_first)
next
  case (Cons c pre)
  then show ?case by (simp split: option.splits)
qed

text \<open>
  Claim C5. A string with no occurrence of the pattern (digits, colon, digits, colon,
  digits, comma, digits) parses to zero; the function is total, it returns a number in
  every case. A string with an occurrence parses to \<open>h * 3600 + m * 60 + s + ms / 1000\<close>
  for the four digit groups \<open>h\<close>, \<open>m\<close>, \<open>s\<close>, \<open>ms\<close> of an occurrence; when the whole string
  has the form \<open>HH:MM:SS,mmm\<close> these are its four fields.
\<close>

theorem timing_parse_lenient:
  "(\<not> (\<exists>pre h m s ms post. all_digits h \<and> all_digits m \<and> all_digits s \<and> all_digits ms \<and>
          line = pre @ h @ '':'' @ m @ '':'' @ s @ '','' @ ms @ post)
      \<longrightarrow> timeStringToSeconds line = 0) \<and>
   ((\<exists>pre h m s ms post. all_digits h \<and> all_digits m \<and> all_digits s \<and> all_digits ms \<and>
          line = pre @ h @ '':'' @ m @ '':'' @ s @ '','' @ ms @ post)
      \<longrightarrow> (\<exists>pre h m s ms post. all_digits h \<and> all_digits m \<and> all_digits s \<and> all_digits ms \<and>
             line = pre @ h @ '':'' @ m @ '':'' @ s @ '','' @ ms @ post \<and>
             timeStringToSeconds line =
               real (parseInt h) * 3600 + real (parseInt m) * 60 + real (parseInt s)
                 + real (parseInt ms) / 1000)) \<and>
   (all_digits hh \<and> all_digits mm \<and> all_digits ss \<and> all_digits mmm
      \<longrightarrow> timeStringToSeconds (hh @ '':'' @ mm @ '':'' @ ss @ '','' @ mmm) =
            real (parseInt hh) * 3600 + real (parseInt mm) * 60 + real (parseInt ss)
              + real (parseInt mmm) / 1000)"
proof (intro conjI impI)
  assume no: "\<not> (\<exists>pre h m s ms post. all_digits h \<and> all_digits m \<and> all_digits s \<and> all_digits ms \<and>
          line = pre @ h @ '':'' @ m @ '':'' @ s @ '','' @ ms @ post)"
  have "regex_match line = None"
  proof (rule ccontr)
    assume "regex_match line \<noteq> None"
    then obtain g1 g2 g3 g4 where "regex_match line = Some (g1, g2, g3, g4)" by auto
    from regex_match_Some [OF this] obtain pre t where
      l: "line = pre @ t" and m: "match_here t = Some (g1, g2, g3, g4)" by blast
    from match_here_Some [OF m] l no show False by blast
  qed
  then show "timeStringToSeconds line = 0" by (simp add: timeStringToSeconds_def)
next
  assume "\<exists>pre h m s ms post. all_digits h \<and> all_digits m \<and> all_digits s \<and> all_digits ms \<and>
          line = pre @ h @ '':'' @ m @ '':'' @ s @ '','' @ ms @ post"
  then obtain pre h m s ms post where
    d: "all_digits h" "all_digits m" "all_digits s" "all_digits ms" and
    l: "line = pre @ (h @ '':'' @ m @ '':'' @ s @ '','' @ ms @ post)"
    by auto
  have "match_here (h @ '':'' @ m @ '':'' @ s @ '','' @ ms @ post) \<noteq> None"
    unfolding match_here_at [OF d] by simp
  then have "regex_match line \<noteq> None"
    unfolding l by (rule regex_match_complete)
  then obtain g1 g2 g3 g4 where r: "regex_match line = Some (g1, g2, g3, g4)" by auto
  from regex_match_Some [OF r] obtain pre' t where
    l': "line = pre' @ t" and m': "match_here t = Some (g1, g2, g3, g4)" by blast
  from match_here_Some [OF m'] obtain post' where
    t: "t = g1 @ '':'' @ g2 @ '':'' @ g3 @ '','' @ g4 @ post'" and
    g: "all_digits g1" "all_digits g2" "all_digits g3" "all_digits g4"
    by blast
  have v: "timeStringToSeconds line =
               real (parseInt g1) * 3600 + real (parseInt g2) * 60 + real (parseInt g3)
                 + real (parseInt g4) / 1000"
    by (simp add: timeStringToSeconds_def r Let_def)
  have l'': "line = pre' @ g1 @ '':'' @ g2 @ '':'' @ g3 @ '','' @ g4 @ post'"
    using l' t by simp
  show "\<exists>pre h m s ms post. all_digits h \<and> all_digits m \<and> all_digits s \<and> all_digits ms \<and>
             line = pre @ h @ '':'' @ m @ '':'' @ s @ '','' @ ms @ post \<and>
             timeStringToSeconds line =
               real (parseInt h) * 3600 + real (parseInt m) * 60 + real (parseInt s)
                 + real (parseInt ms) / 1000"
    apply (rule exI [of _ pre'])
    apply (rule exI [of _ g1])
    apply (rule exI [of _ g2])
    apply (rule exI [of _ g3])
    apply (rule exI [of _ g4])
    apply (rule exI [of _ post'])
    apply (intro conjI g l'' v)
    done
next
  assume "all_digits hh \<and> all_digits mm \<and> all_digits ss \<and> all_digits mmm"
  then have d: "all_digits hh" "all_digits mm" "all_digits ss" "all_digits mmm" by simp_all
  have "regex_match (hh @ '':'' @ mm @ '':'' @ ss @ '','' @ mmm) = Some (hh, mm, ss, mmm)"
    by (rule regex_match_first) (rule match_here_exact [OF d])
  then show "timeStringToSeconds (hh @ '':'' @ mm @ '':'' @ ss @ '','' @ mmm) =
            real (parseInt hh) * 3600 + real (parseInt mm) * 60 + real (parseInt ss)
              + real (parseInt mmm) / 1000"
    by (simp add: timeStringToSeconds_def Let_def)
qed

theorem timing_parse_lenient_witness:
  "\<not> (\<exists>pre h m s ms post. all_digits h \<and> all_digits m \<and> all_digits s \<and> all_digits ms \<and>
          ''not-a-time'' = pre @ h @ '':'' @ m @ '':'' @ s @ '','' @ ms @ post) \<and>
   timeStringToSeconds ''not-a-time'' = 0 \<and>
   all_digits ''01'' \<and> all_digits ''02'' \<and> all_digits ''03'' \<and> all_digits ''450'' \<and>
   timeStringToSeconds ''01:02:03,450'' = 3723.45"
proof -
  have no: "\<not> (\<exists>pre h m s ms post. all_digits h \<and> all_digits m \<and> all_digits s \<and> all_digits ms \<and>
          ''not-a-time'' = pre @ h @ '':'' @ m @ '':'' @ s @ '','' @ ms @ post)"
  proof
    assume "\<exists>pre h m s ms post. all_digits h \<and> all_digits m \<and> all_digits s \<and> all_digits ms \<and>
          ''not-a-time'' = pre @ h @ '':'' @ m @ '':'' @ s @ '','' @ ms @ post"
    then obtain pre h m s ms post where
      "''not-a-time'' = pre @ h @ '':'' @ m @ '':'' @ s @ '','' @ ms @ post" by blast
    then have "set ''not-a-time'' = set (pre @ h @ '':'' @ m @ '':'' @ s @ '','' @ ms @ post)"
      by (rule arg_cong)
    then have "CHR '':'' \<in> set ''not-a-time''" by simp
    then show False by simp
  qed
  have d: "all_digits ''01''" "all_digits ''02''" "all_digits ''03''" "all_digits ''450''"
    by (simp_all add: all_digits_def is_digit_def)
  have p: "parseInt ''01'' = 1" "parseInt ''02'' = 2" "parseInt ''03'' = 3" "parseInt ''450'' = 450"
    by (simp_all add: parseInt_def digit_value_def)
  note T = timing_parse_lenient [of "''not-a-time''" "''01''" "''02''" "''03''" "''450''"]
  from T no have z: "timeStringToSeconds ''not-a-time'' = 0" by blast
  from T d have "timeStringToSeconds (''01'' @ '':'' @ ''02'' @ '':'' @ ''03'' @ '','' @ ''450'') =
      real (parseInt ''01'') * 3600 + real (parseInt ''02'') * 60 + real (parseInt ''03'')
        + real (parseInt ''450'') / 1000"
    by blast
  then have v: "timeStringToSeconds ''01:02:03,450'' = 3723.45"
    by (simp add: p)
  from no z d v show ?thesis by (intro conjI)
qed

subsection \<open>Formatting an output time\<close>

declare nat_to_string.simps [simp del]

lemma digit_char_0: "digit_char 0 = CHR ''0''"
  by (simp add: digit_char_def)

lemma is_digit_digit_char: "d < 10 \<Longrightarrow> is_digit (digit_char d)"
proof -
  assume "d < 10"
  then have "d \<in> {0, 1, 2, 3, 4, 5, 6, 7, 8, 9}" by auto
  then show ?thesis by (auto simp: is_digit_def digit_char_def)
qed

lemma digit_char_nonzero: "0 < d \<Longrightarrow> d < 10 \<Longrightarrow> digit_char d \<noteq> CHR ''0''"
proof -
  assume "0 < d" "d < 10"
  then have "d \<in> {1, 2, 3, 4, 5, 6, 7, 8, 9}" by auto
  then show ?thesis by (auto simp: digit_char_def)
qed

lemma nat_to_string_1: "n < 10 \<Longrightarrow> nat_to_string n = [digit_char n]"
  by (subst nat_to_string.simps) simp

lemma nat_to_string_step:
  "10 \<le> n \<Longrightarrow> nat_to_string n = nat_to_string (n div 10) @ [digit_char (n mod 10)]"
  by (subst nat_to_string.simps) simp

lemma nat_to_string_2:
  "10 \<le> n \<Longrightarrow> n < 100 \<Longrightarrow> nat_to_string n = [digit_char (n div 10), digit_char (n mod 10)]"
  by (simp add: nat_to_string_step nat_to_string_1)

lemma nat_to_string_3:
  "100 \<le> n \<Longrightarrow> n < 1000 \<Longrightarrow>
   nat_to_string n = [digit_char (n div 100), digit_char (n div 10 mod 10), digit_char (n mod 10)]"
  by (simp add: nat_to_string_step [of n] nat_to_string_2 div_mult2_eq [symmetric])

lemma nat_to_string_4:
  "1000 \<le> n \<Longrightarrow> n < 10000 \<Longrightarrow>
   nat_to_string n = [digit_char (n div 1000), digit_char (n div 100 mod 10),
                      digit_char (n div 10 mod 10), digit_char (n mod 10)]"
  by (simp add: nat_to_string_step [of n] nat_to_string_3 div_mult2_eq [symmetric])

lemma nat_to_string_digits: "list_all is_digit (nat_to_string n)"
proof (induction n rule: nat_to_string.induct)
  case (1 n)
  show ?case
  proof (cases "n < 10")
    case True
    then show ?thesis by (simp add: nat_to_string_1 is_digit_digit_char)
  next
    case False
    with "1.IH" show ?thesis
      by (simp add: nat_to_string_step is_digit_digit_char)
  qed
qed

lemma nat_to_string_nonempty: "nat_to_string n \<noteq> []"
  by (subst nat_to_string.simps) simp

lemma nat_to_string_unpadded: "0 < n \<Longrightarrow> hd (nat_to_string n) \<noteq> CHR ''0''"
proof (induction n rule: nat_to_string.induct)
  case (1 n)
  show ?case
  proof (cases "n < 10")
    case True
    with "1.prems" show ?thesis by (simp add: nat_to_string_1 digit_char_nonzero)
  next
    case False
    then have "0 < n div 10" by simp
    with "1.IH" False have "hd (nat_to_string (n div 10)) \<noteq> CHR ''0''" by simp
    with False show ?thesis
      by (simp add: nat_to_string_step nat_to_string_nonempty)
  qed
qed

lemma two_digits:
  "n < 100 \<Longrightarrow> padStart (int_to_string (int n)) 2 (CHR ''0'')
      = [digit_char (n div 10), digit_char (n mod 10)]"
  by (cases "n < 10")
     (simp_all add: padStart_def int_to_string_def nat_to_string_1 nat_to_string_2 digit_char_0)

lemma fixed_five:
  assumes "0 \<le> x" "nat \<lfloor>x * 100 + 1 / 2\<rfloor> = q" "q < 10000"
  shows "padStart (toFixed2 x) 5 (CHR ''0'') =
           [digit_char (q div 1000), digit_char (q div 100 mod 10), CHR ''.'',
            digit_char (q div 10 mod 10), digit_char (q mod 10)]"
proof -
  have n: "nat \<lfloor>\<bar>x\<bar> * 100 + 1 / 2\<rfloor> = q" "\<not> x < 0"
    using assms(1,2) by simp_all
  consider "q < 10" | "10 \<le> q" "q < 100" | "100 \<le> q" "q < 1000" | "1000 \<le> q" "q < 10000"
    using assms(3) by linarith
  then show ?thesis
  proof cases
    case 1
    then show ?thesis
      by (simp add: toFixed2_def Let_def n padStart_def nat_to_string_1 digit_char_0)
  next
    case 2
    then show ?thesis
      by (simp add: toFixed2_def Let_def n padStart_def nat_to_string_2 digit_char_0)
  next
    case 3
    then show ?thesis
      by (simp add: toFixed2_def Let_def n padStart_def nat_to_string_3 digit_char_0)
  next
    case 4
    then show ?thesis
      by (simp add: toFixed2_def Let_def n padStart_def nat_to_string_4 digit_char_0)
  qed
qed


lemma js_rem_nonneg:
  assumes "0 \<le> x" "0 < y"
  shows "js_rem x y = x - y * of_int \<lfloor>x / y\<rfloor>"
  using assms by (simp add: js_rem_def)

lemma floor_scaled:
  fixes t y :: real
  assumes "0 < y"
  shows "0 \<le> t - y * of_int \<lfloor>t / y\<rfloor>" "t - y * of_int \<lfloor>t / y\<rfloor> < y"
proof -
  have e: "t / y * y = t" using assms by simp
  have "of_int \<lfloor>t / y\<rfloor> * y \<le> t / y * y"
    by (rule mult_right_mono) (use assms in simp_all)
  then show "0 \<le> t - y * of_int \<lfloor>t / y\<rfloor>"
    unfolding e by (simp add: mult.commute)
  have "t / y < of_int \<lfloor>t / y\<rfloor> + 1" by linarith
  then have "t / y * y < (of_int \<lfloor>t / y\<rfloor> + 1) * y"
    using assms by (rule mult_strict_right_mono)
  then show "t - y * of_int \<lfloor>t / y\<rfloor> < y"
    unfolding e by (simp add: algebra_simps)
qed

lemma ass_time_fields:
  fixes t :: real
  assumes "0 \<le> t"
  defines "H \<equiv> nat \<lfloor>t / 3600\<rfloor>"
  defines "M \<equiv> nat \<lfloor>(t - 3600 * real H) / 60\<rfloor>"
  defines "q \<equiv> nat \<lfloor>(t - 60 * of_int \<lfloor>t / 60\<rfloor>) * 100 + 1 / 2\<rfloor>"
  shows "M < 60" "q \<le> 6000"
    "secondsToAssTime t =
       nat_to_string H @ '':'' @ [digit_char (M div 10), digit_char (M mod 10)] @ '':'' @
       [digit_char (q div 1000), digit_char (q div 100 mod 10), CHR ''.'',
        digit_char (q div 10 mod 10), digit_char (q mod 10)]"
    "\<bar>real H * 3600 + real M * 60 + real q / 100 - t\<bar> \<le> 1 / 200"
proof -
  have h0: "0 \<le> \<lfloor>t / 3600\<rfloor>" using assms(1) by simp
  then have hH: "real H = of_int \<lfloor>t / 3600\<rfloor>" by (simp add: H_def)
  define r where "r = t - 3600 * real H"
  have r: "0 \<le> r" "r < 3600"
    using floor_scaled [of 3600 t] by (simp_all add: r_def hH)
  have m0: "0 \<le> \<lfloor>r / 60\<rfloor>" using r(1) by simp
  have "r / 60 < 60" using r(2) by simp
  then have m1: "\<lfloor>r / 60\<rfloor> < 60" by (simp add: floor_less_iff)
  from m0 m1 have "nat \<lfloor>r / 60\<rfloor> < 60" by linarith
  then show M60: "M < 60" unfolding M_def r_def .
  have hM: "int M = \<lfloor>r / 60\<rfloor>" using m0 by (simp add: M_def r_def [symmetric])
  define S where "S = t - 60 * of_int \<lfloor>t / 60\<rfloor>"
  have S: "0 \<le> S" "S < 60"
    using floor_scaled [of 60 t] by (simp_all add: S_def)
  have q0: "0 \<le> \<lfloor>S * 100 + 1 / 2\<rfloor>" using S(1) by simp
  have "S * 100 + 1 / 2 < 6001" using S(2) by simp
  then have "\<lfloor>S * 100 + 1 / 2\<rfloor> < 6001" by (simp add: floor_less_iff)
  with q0 have "nat \<lfloor>S * 100 + 1 / 2\<rfloor> \<le> 6000" by linarith
  then show q6: "q \<le> 6000" unfolding q_def S_def .
  have rem1: "js_rem t 3600 = r"
    using assms(1) by (simp add: js_rem_nonneg r_def hH)
  have rem2: "js_rem t 60 = S"
    using assms(1) by (simp add: js_rem_nonneg S_def)
  have i1: "int_to_string \<lfloor>t / 3600\<rfloor> = nat_to_string H"
    using h0 by (simp add: int_to_string_def H_def)
  have i2: "padStart (int_to_string \<lfloor>r / 60\<rfloor>) 2 (CHR ''0'')
              = [digit_char (M div 10), digit_char (M mod 10)]"
    using two_digits [of M] M60 by (simp add: hM)
  have i3: "padStart (toFixed2 S) 5 (CHR ''0'') =
           [digit_char (q div 1000), digit_char (q div 100 mod 10), CHR ''.'',
            digit_char (q div 10 mod 10), digit_char (q mod 10)]"
    using q6 by (intro fixed_five S(1)) (simp_all add: q_def S_def)
  show "secondsToAssTime t =
       nat_to_string H @ '':'' @ [digit_char (M div 10), digit_char (M mod 10)] @ '':'' @
       [digit_char (q div 1000), digit_char (q div 100 mod 10), CHR ''.'',
        digit_char (q div 10 mod 10), digit_char (q mod 10)]"
    by (simp add: secondsToAssTime_def Let_def rem1 rem2 i1 i2 i3)
  have "r / 60 = t / 60 - of_int (60 * \<lfloor>t / 3600\<rfloor>)"
    by (simp add: r_def hH field_simps)
  then have "\<lfloor>r / 60\<rfloor> = \<lfloor>t / 60\<rfloor> - 60 * \<lfloor>t / 3600\<rfloor>"
    by (simp only: floor_diff_of_int)
  then have "real M = of_int \<lfloor>t / 60\<rfloor> - 60 * real H"
    using hM hH by (metis of_int_of_nat_eq of_int_diff of_int_mult of_int_numeral)
  then have v: "real H * 3600 + real M * 60 = t - S"
    by (simp add: S_def algebra_simps)
  have hq: "real q = of_int \<lfloor>S * 100 + 1 / 2\<rfloor>"
    using q0 by (simp add: q_def S_def [symmetric])
  have "of_int \<lfloor>S * 100 + 1 / 2\<rfloor> \<le> S * 100 + 1 / 2"
       "S * 100 + 1 / 2 < of_int \<lfloor>S * 100 + 1 / 2\<rfloor> + 1"
    by linarith+
  then have "real q \<le> S * 100 + 1 / 2" "S * 100 + 1 / 2 < real q + 1"
    unfolding hq [symmetric] by simp_all
  then have "\<bar>real q / 100 - S\<bar> \<le> 1 / 200"
    by linarith
  with v show "\<bar>real H * 3600 + real M * 60 + real q / 100 - t\<bar> \<le> 1 / 200"
    by linarith
qed

lemma timeStringToSeconds_nonneg: "0 \<le> timeStringToSeconds s"
  by (simp add: timeStringToSeconds_def Let_def split: option.splits)

text \<open>
  Claim C8. For a duration \<open>t \<ge> 0\<close> the formatter writes the hours \<open>H\<close> as a plain
  decimal numeral (digits only, no leading zero unless \<open>H = 0\<close>), a colon, the minutes
  \<open>M < 60\<close> as exactly two digits, a colon, and the seconds as two digits, a point and
  two digits: five characters for \<open>q\<close> hundredths of a second, with \<open>q\<close> the seconds
  within the minute rounded to hundredths. So 5.5 s is written \<open>0:00:05.50\<close>.
\<close>

theorem ass_time_format:
  assumes "0 \<le> t"
  shows "let H = nat \<lfloor>t / 3600\<rfloor>;
             M = nat \<lfloor>(t - 3600 * real H) / 60\<rfloor>;
             q = nat \<lfloor>(t - 60 * of_int \<lfloor>t / 60\<rfloor>) * 100 + 1 / 2\<rfloor>
         in secondsToAssTime t =
              nat_to_string H @ '':'' @ [digit_char (M div 10), digit_char (M mod 10)] @ '':'' @
              [digit_char (q div 1000), digit_char (q div 100 mod 10), CHR ''.'',
               digit_char (q div 10 mod 10), digit_char (q mod 10)] \<and>
            M < 60 \<and> q \<le> 6000 \<and>
            list_all is_digit (nat_to_string H) \<and>
            (0 < H \<longrightarrow> hd (nat_to_string H) \<noteq> CHR ''0'')"
  unfolding Let_def
  using ass_time_fields(1-3) [OF assms] nat_to_string_digits nat_to_string_unpadded
  by (intro conjI impI)

theorem ass_time_format_witness:
  "(0::real) \<le> 11 / 2 \<and> secondsToAssTime (11 / 2) = ''0:00:05.50'' \<and>
   (0::real) \<le> 3725 \<and> 0 < nat \<lfloor>(3725::real) / 3600\<rfloor> \<and> secondsToAssTime 3725 = ''1:02:05.00''"
proof -
  have h: "(0::real) \<le> 11 / 2" "(0::real) \<le> 3725" by simp_all
  have n: "0 < nat \<lfloor>(3725::real) / 3600\<rfloor>" by simp
  have a: "secondsToAssTime (11 / 2) = ''0:00:05.50''"
    using ass_time_format [OF h(1)] unfolding Let_def
    by (simp add: nat_to_string_1 digit_char_def)
  have b: "secondsToAssTime 3725 = ''1:02:05.00''"
    using ass_time_format [OF h(2)] unfolding Let_def
    by (simp add: nat_to_string_1 digit_char_def)
  from h n a b show ?thesis by (intro conjI)
qed

text \<open>
  Claim C6 says that formatting the parsed duration preserves its value up to
  floating-point tolerance. The formatter keeps two decimals of the three that the
  transcript format has: the timestamps \<open>00:00:01,234\<close> and \<open>00:00:01,230\<close> parse to
  durations 4 ms apart and are both written \<open>0:00:01.23\<close>.
\<close>

theorem timing_round_trip_counterexample:
  "all_digits ''00'' \<and> all_digits ''01'' \<and> all_digits ''234'' \<and> all_digits ''230'' \<and>
   timeStringToSeconds ''00:00:01,234'' = 1234 / 1000 \<and>
   timeStringToSeconds ''00:00:01,230'' = 1230 / 1000 \<and>
   secondsToAssTime (timeStringToSeconds ''00:00:01,234'') = ''0:00:01.23'' \<and>
   secondsToAssTime (timeStringToSeconds ''00:00:01,230'') = ''0:00:01.23''"
  by code_simp

text \<open>
  Claim C6, as amended. For every timestamp \<open>HH:MM:SS,mmm\<close> (two digits for the hours,
  the minutes and the seconds, three for the milliseconds), formatting the parsed
  duration writes a stamp \<open>H:MM:SS.cc\<close>, with the minutes below 60 and the seconds at most
  \<open>60.00\<close>, whose value \<open>H * 3600 + M * 60 + q / 100\<close> differs from the duration the
  timestamp denotes by at most 0.005 s: the duration is kept to the nearest hundredth of
  a second. When the third decimal is 5 two hundredths are equally near; which of them
  is written depends on the binary rounding of the number, which the model does not
  have, and the statement leaves it open.
\<close>

theorem timing_round_trip_centiseconds:
  assumes "all_digits hh" "length hh = 2" "all_digits mm" "length mm = 2"
    and "all_digits ss" "length ss = 2" "all_digits mmm" "length mmm = 3"
  shows "\<exists>H M q. M < 60 \<and> q \<le> 6000 \<and>
           secondsToAssTime (timeStringToSeconds (hh @ '':'' @ mm @ '':'' @ ss @ '','' @ mmm)) =
             nat_to_string H @ '':'' @ [digit_char (M div 10), digit_char (M mod 10)] @ '':'' @
             [digit_char (q div 1000), digit_char (q div 100 mod 10), CHR ''.'',
              digit_char (q div 10 mod 10), digit_char (q mod 10)] \<and>
           \<bar>real H * 3600 + real M * 60 + real q / 100
              - (real (parseInt hh) * 3600 + real (parseInt mm) * 60 + real (parseInt ss)
                   + real (parseInt mmm) / 1000)\<bar> \<le> 1 / 200"
proof -
  define t where "t = timeStringToSeconds (hh @ '':'' @ mm @ '':'' @ ss @ '','' @ mmm)"
  have r: "regex_match (hh @ '':'' @ mm @ '':'' @ ss @ '','' @ mmm) = Some (hh, mm, ss, mmm)"
    by (rule regex_match_first) (rule match_here_exact [OF assms(1,3,5,7)])
  have v: "t = real (parseInt hh) * 3600 + real (parseInt mm) * 60 + real (parseInt ss)
                  + real (parseInt mmm) / 1000"
    unfolding t_def using r by (simp add: timeStringToSeconds_def Let_def)
  have n: "0 \<le> t" unfolding t_def by (rule timeStringToSeconds_nonneg)
  note F = ass_time_fields [OF n]
  show ?thesis
    unfolding t_def [symmetric] v [symmetric]
    apply (rule exI [of _ "nat \<lfloor>t / 3600\<rfloor>"])
    apply (rule exI [of _ "nat \<lfloor>(t - 3600 * real (nat \<lfloor>t / 3600\<rfloor>)) / 60\<rfloor>"])
    apply (rule exI [of _ "nat \<lfloor>(t - 60 * of_int \<lfloor>t / 60\<rfloor>) * 100 + 1 / 2\<rfloor>"])
    apply (intro conjI F)
    done
qed

theorem timing_round_trip_centiseconds_witness:
  "all_digits ''00'' \<and> length ''00'' = 2 \<and> all_digits ''01'' \<and> length ''01'' = 2 \<and>
   all_digits ''234'' \<and> length ''234'' = 3 \<and>
   (\<exists>H M q. M < 60 \<and> q \<le> 6000 \<and>
      secondsToAssTime (timeStringToSeconds ''00:00:01,234'') =
        nat_to_string H @ '':'' @ [digit_char (M div 10), digit_char (M mod 10)] @ '':'' @
        [digit_char (q div 1000), digit_char (q div 100 mod 10), CHR ''.'',
         digit_char (q div 10 mod 10), digit_char (q mod 10)] \<and>
      \<bar>real H * 3600 + real M * 60 + real q / 100 - 1234 / 1000\<bar> \<le> 1 / 200) \<and>
   secondsToAssTime (timeStringToSeconds ''00:00:01,234'') = ''0:00:01.23''"
proof -
  have d: "all_digits ''00''" "all_digits ''01''" "all_digits ''234''"
    by (simp_all add: all_digits_def is_digit_def)
  have l: "length ''00'' = 2" "length ''01'' = 2" "length ''234'' = 3"
    by simp_all
  have p: "parseInt ''00'' = 0" "parseInt ''01'' = 1" "parseInt ''234'' = 234"
    by (simp_all add: parseInt_def digit_value_def)
  have e: "''00'' @ '':'' @ ''00'' @ '':'' @ ''01'' @ '','' @ ''234'' = ''00:00:01,234''"
    by simp
  have x: "real 0 * 3600 + real 0 * 60 + real 1 + real 234 / 1000 = 1234 / 1000"
    by simp
  note T = timing_round_trip_centiseconds
    [OF d(1) l(1) d(1) l(1) d(2) l(2) d(3) l(3), unfolded p e x]
  have s: "secondsToAssTime (timeStringToSeconds ''00:00:01,234'') = ''0:00:01.23''"
    by code_simp
  show ?thesis
    by (intro conjI d l T s)
qed

end
